theory Spec2Isabelle
  imports
    Complex_Main
    "HOL-Library.AList"
    "HOL-Library.Multiset"
    "HOL-Library.List_Lexorder"
    "HOL-Library.Char_ord"
begin

section \<open>Overseer: a shallow embedding of the reconnaissance pipeline\<close>

text \<open>
  The development follows the Python sources module by module:
  \<^verbatim>\<open>modules/ct_enum.py\<close> (certificate-transparency enumeration),
  \<^verbatim>\<open>modules/dns_resolver.py\<close> (DNS resolution),
  \<^verbatim>\<open>modules/geo_intel.py\<close> (batch geolocation),
  \<^verbatim>\<open>modules/map_generator.py\<close> (the marker colour, i.e. the risk tier) and
  \<^verbatim>\<open>overseer.py\<close> (the orchestrator).

  Conventions. Python strings are \<^typ>\<open>string\<close>: a \<^typ>\<open>char\<close> is a code point
  below 256, and the string methods below do to these code points what Python does to them.
  A Python \<^verbatim>\<open>dict\<close> is an association list in insertion order (\<^const>\<open>AList.update\<close>
  overwrites in place and appends a new key, as a \<^verbatim>\<open>dict\<close> does);
  \<^verbatim>\<open>Optional[T]\<close> is \<^typ>\<open>'a option\<close>; floats that are only passed around are
  \<^typ>\<open>rat\<close>. The network is a parameter of every function that talks to it, and every
  call of \<^verbatim>\<open>time.sleep\<close> and every request is written to a trace.
\<close>

subsection \<open>Python string methods\<close>

definition ascii_uppercase :: string where
  "ascii_uppercase = ''ABCDEFGHIJKLMNOPQRSTUVWXYZ''"

definition ascii_lowercase :: string where
  "ascii_lowercase = ''abcdefghijklmnopqrstuvwxyz''"

definition digits :: string where
  "digits = ''0123456789''"

text \<open>
  The other letters below 256 that have a lower case: U+00C0 to U+00DE without the
  multiplication sign U+00D7; the lower case is 32 code points further, U+00E0 to U+00FE
  without the division sign U+00F7.
\<close>

definition latin1_uppercase :: string where
  "latin1_uppercase =
     [CHR 0xC0, CHR 0xC1, CHR 0xC2, CHR 0xC3, CHR 0xC4, CHR 0xC5, CHR 0xC6, CHR 0xC7,
      CHR 0xC8, CHR 0xC9, CHR 0xCA, CHR 0xCB, CHR 0xCC, CHR 0xCD, CHR 0xCE, CHR 0xCF,
      CHR 0xD0, CHR 0xD1, CHR 0xD2, CHR 0xD3, CHR 0xD4, CHR 0xD5, CHR 0xD6,
      CHR 0xD8, CHR 0xD9, CHR 0xDA, CHR 0xDB, CHR 0xDC, CHR 0xDD, CHR 0xDE]"

definition latin1_lowercase :: string where
  "latin1_lowercase =
     [CHR 0xE0, CHR 0xE1, CHR 0xE2, CHR 0xE3, CHR 0xE4, CHR 0xE5, CHR 0xE6, CHR 0xE7,
      CHR 0xE8, CHR 0xE9, CHR 0xEA, CHR 0xEB, CHR 0xEC, CHR 0xED, CHR 0xEE, CHR 0xEF,
      CHR 0xF0, CHR 0xF1, CHR 0xF2, CHR 0xF3, CHR 0xF4, CHR 0xF5, CHR 0xF6,
      CHR 0xF8, CHR 0xF9, CHR 0xFA, CHR 0xFB, CHR 0xFC, CHR 0xFD, CHR 0xFE]"

definition lower_char :: "char \<Rightarrow> char" where
  "lower_char c =
     (case map_of (zip (ascii_uppercase @ latin1_uppercase) (ascii_lowercase @ latin1_lowercase)) c
      of Some d \<Rightarrow> d | None \<Rightarrow> c)"

text \<open>\<^verbatim>\<open>s.lower()\<close>\<close>

definition str_lower :: "string \<Rightarrow> string" where
  "str_lower s = map lower_char s"

text \<open>
  \<^verbatim>\<open>c.isspace()\<close>: TAB, LF, VT, FF, CR, FS, GS, RS, US, the space, the next-line
  control U+0085 and the no-break space U+00A0.
\<close>

definition isspace :: "char \<Rightarrow> bool" where
  "isspace c = (c \<in> set [CHR 0x09, CHR 0x0A, CHR 0x0B, CHR 0x0C, CHR 0x0D,
                            CHR 0x1C, CHR 0x1D, CHR 0x1E, CHR 0x1F, CHR 0x20,
                            CHR 0x85, CHR 0xA0])"

text \<open>\<^verbatim>\<open>s.strip()\<close>\<close>

definition str_strip :: "string \<Rightarrow> string" where
  "str_strip s = rev (dropWhile isspace (rev (dropWhile isspace s)))"

text \<open>\<^verbatim>\<open>s.startswith(p)\<close>\<close>

fun str_startswith :: "string \<Rightarrow> string \<Rightarrow> bool" where
  "str_startswith s [] = True"
| "str_startswith [] (p # ps) = False"
| "str_startswith (c # cs) (p # ps) = (c = p \<and> str_startswith cs ps)"

text \<open>\<^verbatim>\<open>s.endswith(suf)\<close>\<close>

definition str_endswith :: "string \<Rightarrow> string \<Rightarrow> bool" where
  "str_endswith s suf = str_startswith (rev s) (rev suf)"

text \<open>\<^verbatim>\<open>sub in s\<close>\<close>

fun str_contains :: "string \<Rightarrow> string \<Rightarrow> bool" where
  "str_contains [] sub = (sub = [])"
| "str_contains (c # cs) sub = (str_startswith (c # cs) sub \<or> str_contains cs sub)"

text \<open>\<^verbatim>\<open>s.replace(old, new)\<close> for a non-empty \<open>old\<close>: the occurrences are replaced from
  left to right and do not overlap.\<close>

fun str_replace :: "string \<Rightarrow> string \<Rightarrow> string \<Rightarrow> string" where
  "str_replace old new [] = []"
| "str_replace old new (c # cs) =
     (if str_startswith (c # cs) old
      then new @ str_replace old new (drop (length old - 1) cs)
      else c # str_replace old new cs)"

text \<open>\<^verbatim>\<open>s.split(sep)\<close> for a separator of one character; the result is never empty.\<close>

fun str_split :: "char \<Rightarrow> string \<Rightarrow> string list" where
  "str_split sep [] = [[]]"
| "str_split sep (c # cs) =
     (if c = sep then [] # str_split sep cs
      else (case str_split sep cs of w # ws \<Rightarrow> (c # w) # ws | [] \<Rightarrow> [[c]]))"

text \<open>\<^verbatim>\<open>s.split(sep)[0]\<close>\<close>

definition first_field :: "char \<Rightarrow> string \<Rightarrow> string" where
  "first_field sep s = (case str_split sep s of w # ws \<Rightarrow> w | [] \<Rightarrow> [])"

text \<open>\<^verbatim>\<open>x or ''\<close> for an optional string.\<close>

definition or_empty :: "string option \<Rightarrow> string" where
  "or_empty x = (case x of None \<Rightarrow> [] | Some s \<Rightarrow> s)"

subsection \<open>Regular expressions, as the \<^verbatim>\<open>re\<close> module matches them\<close>

datatype regex =
    Never
  | Eps
  | Class "char \<Rightarrow> bool"
  | Seq regex regex
  | Alt regex regex
  | Star regex

fun nullable :: "regex \<Rightarrow> bool" where
  "nullable Never = False"
| "nullable Eps = True"
| "nullable (Class P) = False"
| "nullable (Seq r s) = (nullable r \<and> nullable s)"
| "nullable (Alt r s) = (nullable r \<or> nullable s)"
| "nullable (Star r) = True"

fun deriv :: "char \<Rightarrow> regex \<Rightarrow> regex" where
  "deriv c Never = Never"
| "deriv c Eps = Never"
| "deriv c (Class P) = (if P c then Eps else Never)"
| "deriv c (Seq r s) =
     (if nullable r then Alt (Seq (deriv c r) s) (deriv c s) else Seq (deriv c r) s)"
| "deriv c (Alt r s) = Alt (deriv c r) (deriv c s)"
| "deriv c (Star r) = Seq (deriv c r) (Star r)"

text \<open>The whole string is a word of the expression.\<close>

fun fullmatch :: "regex \<Rightarrow> string \<Rightarrow> bool" where
  "fullmatch r [] = nullable r"
| "fullmatch r (c # cs) = fullmatch (deriv c r) cs"

text \<open>
  \<^verbatim>\<open>re.match('^' + r + '$', s)\<close> without flags: \<^verbatim>\<open>^\<close> is the start of the string, and
  \<^verbatim>\<open>$\<close> matches at the end of the string and also just before a newline that is the
  last character of the string.
\<close>

definition re_match_anchored :: "regex \<Rightarrow> string \<Rightarrow> bool" where
  "re_match_anchored r s =
     (fullmatch r s \<or> (s \<noteq> [] \<and> last s = CHR 0x0A \<and> fullmatch r (butlast s)))"


subsection \<open>Requests and their replies\<close>

text \<open>
  What one call of \<^verbatim>\<open>session.get\<close> or \<^verbatim>\<open>session.post\<close> does:
  it raises \<^verbatim>\<open>requests.exceptions.Timeout\<close>, it raises another
  \<^verbatim>\<open>RequestException\<close>, or it returns a response with a status code, a text and the
  value of \<^verbatim>\<open>response.json()\<close> (\<open>None\<close> when the text is not JSON and the call
  raises \<^verbatim>\<open>ValueError\<close>).
\<close>

datatype 'a reply =
    ReqTimeout
  | ReqException
  | Response nat string "'a option"

text \<open>\<^verbatim>\<open>response.raise_for_status()\<close> raises \<^verbatim>\<open>HTTPError\<close> for 4xx and 5xx.\<close>

definition raise_for_status :: "nat \<Rightarrow> bool" where
  "raise_for_status status_code = (400 \<le> status_code \<and> status_code < 600)"

text \<open>The observable effects: a request (numbered by attempt or by batch) and a sleep.\<close>

datatype event = Request nat | Sleep rat

subsection \<open>\<^verbatim>\<open>modules/ct_enum.py\<close>: class \<^verbatim>\<open>CTLogEnumerator\<close>\<close>

definition MAX_RETRIES :: nat where
  "MAX_RETRIES = 3"

definition RETRY_DELAY :: rat where
  "RETRY_DELAY = 2"

text \<open>The character classes of the validation pattern
  \<^verbatim>\<open>^[a-z0-9][a-z0-9\-\.]*[a-z0-9]$\<close>.\<close>

definition alnum :: "char \<Rightarrow> bool" where
  "alnum c = (c \<in> set (ascii_lowercase @ digits))"

definition alnum_dash_dot :: "char \<Rightarrow> bool" where
  "alnum_dash_dot c = (c \<in> set (ascii_lowercase @ digits @ ''-.''))"

definition SUBDOMAIN_RE :: regex where
  "SUBDOMAIN_RE = Seq (Class alnum) (Seq (Star (Class alnum_dash_dot)) (Class alnum))"

text \<open>
  \<^verbatim>\<open>_clean_subdomain(self, name, domain)\<close>: the name is trimmed and lower-cased; when it
  starts with \<^verbatim>\<open>*\<close>, every \<^verbatim>\<open>*.\<close> in it is removed; it is dropped when it does not end
  with the domain, when it is the domain, and when the pattern does not match.
\<close>

definition clean_subdomain :: "string \<Rightarrow> string \<Rightarrow> string option" where
  "clean_subdomain name domain =
     (let name1 = str_lower (str_strip name);
          name2 = (if str_startswith name1 ''*'' then str_replace ''*.'' [] name1 else name1)
      in if \<not> str_endswith name2 domain then None
         else if name2 = domain then None
         else if \<not> re_match_anchored SUBDOMAIN_RE name2 then None
         else Some name2)"


definition strip_wildcards :: "string \<Rightarrow> string" where
  "strip_wildcards s = (if str_startswith s ''*'' then str_replace ''*.'' [] s else s)"

definition normalized :: "string \<Rightarrow> string" where
  "normalized name = strip_wildcards (str_lower (str_strip name))"


text \<open>The names a provider lists, cleaned one by one; the rejected ones are skipped.\<close>

definition clean_all :: "string \<Rightarrow> string list \<Rightarrow> string set" where
  "clean_all domain names = set (List.map_filter (\<lambda>name. clean_subdomain name domain) names)"

text \<open>
  An entry of the crt.sh answer: the value under \<^verbatim>\<open>name_value\<close>, if the key is there
  (\<^verbatim>\<open>entry.get('name_value', '')\<close>); it holds several names, one per line.
\<close>

type_synonym crtsh_entry = "string option"

definition crtsh_names :: "crtsh_entry list \<Rightarrow> string list" where
  "crtsh_names data = concat (map (\<lambda>entry. str_split (CHR 0x0A) (or_empty entry)) data)"

text \<open>
  \<^verbatim>\<open>_query_crtsh(self, domain)\<close>: the loop \<^verbatim>\<open>for attempt in range(self.MAX_RETRIES)\<close>
  runs over the list of the attempts that are left. \<open>get attempt\<close> is the reply to the request
  of that attempt. The result is the set of names and the trace of requests and sleeps.
  A 503 sleeps \<^verbatim>\<open>RETRY_DELAY * (attempt + 1)\<close> and goes on (\<^verbatim>\<open>continue\<close>), a timeout
  sleeps \<^verbatim>\<open>RETRY_DELAY\<close> and goes on, both without a sleep after the last attempt; every other
  \<^verbatim>\<open>RequestException\<close> (the \<^verbatim>\<open>HTTPError\<close> of \<^verbatim>\<open>raise_for_status\<close> among them) and
  a \<^verbatim>\<open>ValueError\<close> of \<^verbatim>\<open>response.json()\<close> leave the loop (\<^verbatim>\<open>break\<close>).
\<close>

fun crtsh_loop ::
  "(nat \<Rightarrow> crtsh_entry list reply) \<Rightarrow> string \<Rightarrow> nat list \<Rightarrow> string set \<times> event list" where
  "crtsh_loop get domain [] = ({}, [])"
| "crtsh_loop get domain (attempt # rest) =
     (case get attempt of
        ReqTimeout \<Rightarrow>
          (let (subdomains, trace) = crtsh_loop get domain rest
           in (subdomains,
               Request attempt #
               (if int attempt < int MAX_RETRIES - 1 then [Sleep RETRY_DELAY] else []) @ trace))
      | ReqException \<Rightarrow> ({}, [Request attempt])
      | Response status_code body json \<Rightarrow>
          if status_code = 503 then
            (let (subdomains, trace) = crtsh_loop get domain rest
             in (subdomains,
                 Request attempt #
                 (if int attempt < int MAX_RETRIES - 1
                  then [Sleep (RETRY_DELAY * of_nat (attempt + 1))] else []) @ trace))
          else if raise_for_status status_code then ({}, [Request attempt])
          else if str_strip body = [] then ({}, [Request attempt])
          else (case json of
                  None \<Rightarrow> ({}, [Request attempt])
                | Some data \<Rightarrow> (clean_all domain (crtsh_names data), [Request attempt])))"

definition query_crtsh ::
  "(nat \<Rightarrow> crtsh_entry list reply) \<Rightarrow> string \<Rightarrow> string set \<times> event list" where
  "query_crtsh get domain = crtsh_loop get domain [0..<MAX_RETRIES]"

text \<open>
  The replies, as the retry policy tells them apart: the provider is unavailable (status 503),
  the request timed out, or the error is a hard one (another exception of the request, an
  error status other than 503, or a text that is not JSON).
\<close>

definition unavailable :: "'a reply \<Rightarrow> bool" where
  "unavailable r = (case r of Response status_code body json \<Rightarrow> status_code = 503 | _ \<Rightarrow> False)"

definition timed_out :: "'a reply \<Rightarrow> bool" where
  "timed_out r = (case r of ReqTimeout \<Rightarrow> True | _ \<Rightarrow> False)"

definition hard_error :: "'a reply \<Rightarrow> bool" where
  "hard_error r =
     (case r of
        ReqTimeout \<Rightarrow> False
      | ReqException \<Rightarrow> True
      | Response status_code body json \<Rightarrow>
          status_code \<noteq> 503 \<and>
          (raise_for_status status_code \<or> (str_strip body \<noteq> [] \<and> json = None)))"

text \<open>What follows the first occurrence of an event in a trace, and the attempts of a trace.\<close>

definition following :: "event \<Rightarrow> event list \<Rightarrow> event list" where
  "following e trace = tl (dropWhile (\<lambda>x. x \<noteq> e) trace)"

definition requests :: "event list \<Rightarrow> nat list" where
  "requests trace = List.map_filter (\<lambda>e. case e of Request a \<Rightarrow> Some a | Sleep d \<Rightarrow> None) trace"

text \<open>
  The policy at attempt \<open>a\<close>, counted from 0: the attempt is made exactly when every earlier
  one met an unavailable provider or timed out; after a 503 that is not the last attempt the
  program sleeps \<^verbatim>\<open>RETRY_DELAY * (a + 1)\<close> and asks again; after a timeout that is not the
  last attempt it asks again; nothing follows the last attempt; and nothing follows a hard
  error, which leaves no names.
\<close>

definition attempt_ok :: "(nat \<Rightarrow> crtsh_entry list reply) \<Rightarrow> string \<Rightarrow> nat \<Rightarrow> bool" where
  "attempt_ok get domain a =
     ((Request a \<in> set (snd (query_crtsh get domain)) \<longleftrightarrow>
         (\<forall>j < a. unavailable (get j) \<or> timed_out (get j))) \<and>
      (Request a \<in> set (snd (query_crtsh get domain)) \<longrightarrow>
         (unavailable (get a) \<and> a + 1 < MAX_RETRIES \<longrightarrow>
            take 2 (following (Request a) (snd (query_crtsh get domain))) =
              [Sleep (RETRY_DELAY * of_nat (a + 1)), Request (a + 1)]) \<and>
         (timed_out (get a) \<and> a + 1 < MAX_RETRIES \<longrightarrow>
            Request (a + 1) \<in> set (following (Request a) (snd (query_crtsh get domain)))) \<and>
         ((unavailable (get a) \<or> timed_out (get a)) \<and> a + 1 = MAX_RETRIES \<longrightarrow>
            following (Request a) (snd (query_crtsh get domain)) = []) \<and>
         (hard_error (get a) \<longrightarrow>
            following (Request a) (snd (query_crtsh get domain)) = [] \<and>
            fst (query_crtsh get domain) = {})))"

text \<open>
  \<^verbatim>\<open>_query_certspotter(self, domain)\<close>: one request; every exception ends in the empty
  set. An entry of the answer is its list \<^verbatim>\<open>dns_names\<close>, if the key is there.
\<close>

type_synonym certspotter_entry = "string list option"

definition certspotter_names :: "certspotter_entry list \<Rightarrow> string list" where
  "certspotter_names data =
     concat (map (\<lambda>entry. case entry of None \<Rightarrow> [] | Some dns_names \<Rightarrow> dns_names) data)"

definition query_certspotter :: "certspotter_entry list reply \<Rightarrow> string \<Rightarrow> string set" where
  "query_certspotter r domain =
     (case r of
        ReqTimeout \<Rightarrow> {}
      | ReqException \<Rightarrow> {}
      | Response status_code body json \<Rightarrow>
          if raise_for_status status_code then {}
          else (case json of
                  None \<Rightarrow> {}
                | Some data \<Rightarrow> clean_all domain (certspotter_names data)))"

text \<open>
  \<^verbatim>\<open>_query_hackertarget(self, domain)\<close>: one request; the answer is plain text, one
  \<^verbatim>\<open>subdomain,IP\<close> per line.
\<close>

definition hackertarget_names :: "string \<Rightarrow> string list" where
  "hackertarget_names body =
     map (\<lambda>line. str_strip (first_field (CHR '','') line))
       (filter (\<lambda>line. str_contains line '','' \<and> \<not> str_contains (str_lower line) ''error'')
          (str_split (CHR 0x0A) (str_strip body)))"

definition query_hackertarget :: "unit reply \<Rightarrow> string \<Rightarrow> string set" where
  "query_hackertarget r domain =
     (case r of
        ReqTimeout \<Rightarrow> {}
      | ReqException \<Rightarrow> {}
      | Response status_code body json \<Rightarrow>
          if raise_for_status status_code then {}
          else clean_all domain (hackertarget_names body))"

text \<open>The three providers, as one run of \<^verbatim>\<open>enumerate\<close> sees them.\<close>

record providers =
  crtsh :: "nat \<Rightarrow> crtsh_entry list reply"
  certspotter :: "certspotter_entry list reply"
  hackertarget :: "unit reply"

text \<open>
  \<^verbatim>\<open>enumerate(self, domain)\<close>: crt.sh first, CertSpotter when fewer than 10 names are
  there, HackerTarget when fewer than 5 are.
\<close>

definition enumerate_ct :: "providers \<Rightarrow> string \<Rightarrow> string set" where
  "enumerate_ct net domain =
     (let crt_results = fst (query_crtsh (crtsh net) domain);
          subdomains1 = {} \<union> crt_results;
          subdomains2 = (if card subdomains1 < 10
                         then subdomains1 \<union> query_certspotter (certspotter net) domain
                         else subdomains1);
          subdomains3 = (if card subdomains2 < 5
                         then subdomains2 \<union> query_hackertarget (hackertarget net) domain
                         else subdomains2)
      in subdomains3)"

subsection \<open>\<^verbatim>\<open>modules/dns_resolver.py\<close>: class \<^verbatim>\<open>DNSResolver\<close>\<close>

record DNSResult =
  subdomain :: string
  ip :: "string option"
  is_alive :: bool
  cname :: "string option"
  error :: "string option"

text \<open>
  What one call of \<^verbatim>\<open>self.resolver.resolve(name, rdtype)\<close> does: it returns an answer
  (dnspython raises \<^verbatim>\<open>NoAnswer\<close> rather than return an empty one, so the answer has a
  first record), or it raises \<^verbatim>\<open>NXDOMAIN\<close>, \<^verbatim>\<open>NoAnswer\<close>, \<^verbatim>\<open>Timeout\<close> or
  another exception \<open>e\<close>, of which \<^verbatim>\<open>str(e)\<close> is kept.
\<close>

datatype rdtype = A | CNAME

datatype dns_reply =
    Answer string "string list"
  | NXDOMAIN
  | NoAnswer
  | Timeout
  | OtherException string

type_synonym resolver = "string \<Rightarrow> rdtype \<Rightarrow> dns_reply"

text \<open>
  \<^verbatim>\<open>resolve_single(self, subdomain)\<close>, with the queries it sends, in order. The inner
  \<^verbatim>\<open>try\<close> around the CNAME query has a bare \<^verbatim>\<open>except: pass\<close>.
\<close>

definition resolve_single :: "resolver \<Rightarrow> string \<Rightarrow> DNSResult \<times> (string \<times> rdtype) list" where
  "resolve_single resolve sub =
     (case resolve sub A of
        Answer first others \<Rightarrow>
          (let cname_found = (case resolve sub CNAME of
                                Answer cname_first cname_others \<Rightarrow> Some cname_first
                              | _ \<Rightarrow> None)
           in (\<lparr>subdomain = sub, ip = Some first, is_alive = True,
                cname = cname_found, error = None\<rparr>,
               [(sub, A), (sub, CNAME)]))
      | NXDOMAIN \<Rightarrow>
          (\<lparr>subdomain = sub, ip = None, is_alive = False, cname = None,
            error = Some ''NXDOMAIN''\<rparr>, [(sub, A)])
      | NoAnswer \<Rightarrow>
          (\<lparr>subdomain = sub, ip = None, is_alive = False, cname = None,
            error = Some ''NoAnswer''\<rparr>, [(sub, A)])
      | Timeout \<Rightarrow>
          (\<lparr>subdomain = sub, ip = None, is_alive = False, cname = None,
            error = Some ''Timeout''\<rparr>, [(sub, A)])
      | OtherException msg \<Rightarrow>
          (\<lparr>subdomain = sub, ip = None, is_alive = False, cname = None,
            error = Some msg\<rparr>, [(sub, A)]))"

text \<open>
  The worker pool, as \<^verbatim>\<open>resolve_bulk\<close> sees it. Future number \<open>i\<close> runs
  \<^verbatim>\<open>resolve_single\<close> against the DNS as it is at that moment (\<open>dns i\<close>);
  \<^verbatim>\<open>future.result()\<close> returns what the worker returned, or raises an exception that
  escaped the worker (\<open>fault i = Some msg\<close>, with \<open>msg\<close> its \<^verbatim>\<open>str(e)\<close>).
  \<^verbatim>\<open>as_completed\<close> hands the futures back in an order of its own.
\<close>

record pool =
  dns :: "nat \<Rightarrow> resolver"
  fault :: "nat \<Rightarrow> string option"
  as_completed :: "(nat \<times> string) list \<Rightarrow> (nat \<times> string) list"

definition future_result :: "pool \<Rightarrow> nat \<Rightarrow> string \<Rightarrow> string + DNSResult" where
  "future_result p i sub =
     (case fault p i of
        Some msg \<Rightarrow> Inl msg
      | None \<Rightarrow> Inr (fst (resolve_single (dns p i) sub)))"

text \<open>The body of the loop \<^verbatim>\<open>for future in as_completed(future_to_sub)\<close>.\<close>

definition collect ::
  "pool \<Rightarrow> (string \<times> DNSResult) list \<Rightarrow> nat \<times> string \<Rightarrow> (string \<times> DNSResult) list" where
  "collect p results fut =
     (case fut of (i, sub) \<Rightarrow>
        (case future_result p i sub of
           Inr result \<Rightarrow> AList.update sub result results
         | Inl msg \<Rightarrow>
             AList.update sub
               \<lparr>subdomain = sub, ip = None, is_alive = False, cname = None, error = Some msg\<rparr>
               results))"

datatype exn = ValueError

text \<open>
  \<^verbatim>\<open>resolve_bulk(self, subdomains)\<close>. \<^verbatim>\<open>ThreadPoolExecutor(max_workers=n)\<close> raises
  \<^verbatim>\<open>ValueError\<close> for \<open>n \<le> 0\<close>; one task is submitted per element of the list, and the
  results are written by the calling thread alone, one future at a time.
\<close>

definition resolve_bulk ::
  "int \<Rightarrow> pool \<Rightarrow> string list \<Rightarrow> exn + (string \<times> DNSResult) list" where
  "resolve_bulk max_workers p subdomains =
     (if max_workers \<le> 0 then Inl ValueError
      else
        (let future_to_sub = List.enumerate 0 subdomains
         in Inr (foldl (collect p) [] (as_completed p future_to_sub))))"

text \<open>
  Two properties of a table of results: every record is filed under its own name, and a
  record of a failed lookup is not alive, has no address and names its error.
\<close>

definition own_record :: "(string \<times> DNSResult) list \<Rightarrow> bool" where
  "own_record results = list_all (\<lambda>(sub, r). subdomain r = sub) results"

definition dead_record :: "string \<times> DNSResult \<Rightarrow> bool" where
  "dead_record entry = (case entry of (sub, r) \<Rightarrow> \<not> is_alive r \<and> ip r = None \<and> error r \<noteq> None)"

subsection \<open>\<^verbatim>\<open>modules/map_generator.py\<close>: the marker colour\<close>

text \<open>\<^verbatim>\<open>any(fragment in text for fragment in fragments)\<close>\<close>

definition any_in :: "string list \<Rightarrow> string \<Rightarrow> bool" where
  "any_in fragments s = list_ex (\<lambda>fragment. str_contains s fragment) fragments"

text \<open>\<^verbatim>\<open>get_marker_color(org, isp)\<close>, branch by branch.\<close>

definition get_marker_color :: "string option \<Rightarrow> string option \<Rightarrow> string" where
  "get_marker_color org isp =
     (let org_lower = str_lower (or_empty org) @ str_lower (or_empty isp)
      in if any_in [''amazon'', ''aws'', ''ec2'', ''amazonaws''] org_lower then ''green''
         else if any_in [''google'', ''gcp'', ''cloud platform''] org_lower then ''green''
         else if any_in [''microsoft'', ''azure''] org_lower then ''green''
         else if any_in [''cloudflare'', ''akamai'', ''fastly'', ''cdn'', ''edgecast'',
                         ''incapsula''] org_lower then ''orange''
         else if any_in [''digitalocean'', ''linode'', ''vultr'', ''ovh'', ''hetzner'',
                         ''contabo''] org_lower then ''blue''
         else if any_in [''vivo'', ''claro'', ''tim'', ''oi '', ''net virtua'', ''gvt'']
                   org_lower then ''red''
         else if any_in [''comcast'', ''verizon'', ''at&t'', ''spectrum'', ''cox'']
                   org_lower then ''red''
         else ''red'')"

text \<open>
  The legend of the map (\<^verbatim>\<open>legend_html\<close>) and the comments of the branches name the
  tier of each colour: green is SAFE, orange is LOW, blue is MED, red is HIGH.
\<close>

datatype tier = Safe | Low | Medium | High

definition tier_of_color :: "string \<Rightarrow> tier option" where
  "tier_of_color color =
     (if color = ''green'' then Some Safe
      else if color = ''orange'' then Some Low
      else if color = ''blue'' then Some Medium
      else if color = ''red'' then Some High
      else None)"

definition risk_tier :: "string option \<Rightarrow> string option \<Rightarrow> tier option" where
  "risk_tier org isp = tier_of_color (get_marker_color org isp)"

text \<open>
  The classification as the design states it, to compare the code with: a fragment occurs in
  a text, case ignored, when some stretch of the text is the fragment up to case; the tiers
  are tried in the order Safe, Low, Medium, and High is what is left.
\<close>

definition occurs_ignoring_case :: "string \<Rightarrow> string \<Rightarrow> bool" where
  "occurs_ignoring_case fragment s =
     (\<exists>before stretch after. s = before @ stretch @ after \<and> str_lower stretch = str_lower fragment)"

definition cloud_fragments :: "string list" where
  "cloud_fragments = [''amazon'', ''aws'', ''ec2'', ''amazonaws'', ''google'', ''gcp'',
                      ''cloud platform'', ''microsoft'', ''azure'']"

definition cdn_fragments :: "string list" where
  "cdn_fragments = [''cloudflare'', ''akamai'', ''fastly'', ''cdn'', ''edgecast'', ''incapsula'']"

definition vps_fragments :: "string list" where
  "vps_fragments = [''digitalocean'', ''linode'', ''vultr'', ''ovh'', ''hetzner'', ''contabo'']"

definition classify :: "string option \<Rightarrow> string option \<Rightarrow> tier" where
  "classify org isp =
     (let s = or_empty org @ or_empty isp
      in if \<exists>fragment \<in> set cloud_fragments. occurs_ignoring_case fragment s then Safe
         else if \<exists>fragment \<in> set cdn_fragments. occurs_ignoring_case fragment s then Low
         else if \<exists>fragment \<in> set vps_fragments. occurs_ignoring_case fragment s then Medium
         else High)"

subsection \<open>\<^verbatim>\<open>modules/geo_intel.py\<close>: class \<^verbatim>\<open>GeoIntelligence\<close>\<close>

record GeoData =
  geo_ip :: string
  country :: "string option"
  country_code :: "string option"
  region :: "string option"
  city :: "string option"
  lat :: "rat option"
  lon :: "rat option"
  isp :: "string option"
  org :: "string option"
  as_number :: "string option"
  success :: bool

definition BATCH_SIZE :: nat where
  "BATCH_SIZE = 100"

definition RATE_LIMIT_DELAY :: rat where
  "RATE_LIMIT_DELAY = 3 / 2"

text \<open>
  An element of the provider's answer: a JSON object, of which \<^verbatim>\<open>item.get(key)\<close> reads
  the keys below (\<open>None\<close> when the key is not there), or something that is not an object, on
  which \<^verbatim>\<open>item.get\<close> raises \<^verbatim>\<open>AttributeError\<close>.
\<close>

record geo_item =
  j_query :: "string option"
  j_status :: "string option"
  j_country :: "string option"
  j_countryCode :: "string option"
  j_regionName :: "string option"
  j_city :: "string option"
  j_lat :: "rat option"
  j_lon :: "rat option"
  j_isp :: "string option"
  j_org :: "string option"
  j_as :: "string option"

datatype geo_json = JObject geo_item | JOther

text \<open>\<^verbatim>\<open>GeoData(ip=ip, success=False)\<close>: every other field keeps its default \<open>None\<close>.\<close>

definition failed_geo :: "string \<Rightarrow> GeoData" where
  "failed_geo a =
     \<lparr>geo_ip = a, country = None, country_code = None, region = None, city = None,
      lat = None, lon = None, isp = None, org = None, as_number = None, success = False\<rparr>"

text \<open>The record written for one item of the answer, under the key \<^verbatim>\<open>item.get('query', '')\<close>.\<close>

definition geo_of_item :: "geo_item \<Rightarrow> GeoData" where
  "geo_of_item item =
     (let a = or_empty (j_query item)
      in if j_status item = Some ''success''
         then \<lparr>geo_ip = a, country = j_country item, country_code = j_countryCode item,
               region = j_regionName item, city = j_city item, lat = j_lat item,
               lon = j_lon item, isp = j_isp item, org = j_org item, as_number = j_as item,
               success = True\<rparr>
         else failed_geo a)"

text \<open>
  The loop \<^verbatim>\<open>for item in data\<close>: the results so far, and whether the loop raised. What
  was written before the exception stays written.
\<close>

fun process_items ::
  "geo_json list \<Rightarrow> (string \<times> GeoData) list \<Rightarrow> (string \<times> GeoData) list \<times> bool" where
  "process_items [] results = (results, False)"
| "process_items (JOther # items) results = (results, True)"
| "process_items (JObject item # items) results =
     process_items items (AList.update (or_empty (j_query item)) (geo_of_item item) results)"

text \<open>The handler of the batch: \<^verbatim>\<open>for ip in batch: if ip not in results: ...\<close>\<close>

definition mark_failed ::
  "string list \<Rightarrow> (string \<times> GeoData) list \<Rightarrow> (string \<times> GeoData) list" where
  "mark_failed batch results =
     foldl (\<lambda>res a. if map_of res a = None then AList.update a (failed_geo a) res else res)
       results batch"

text \<open>\<^verbatim>\<open>range(0, stop, step)\<close> for a positive step.\<close>

definition range_step :: "nat \<Rightarrow> nat \<Rightarrow> nat list" where
  "range_step stop step = map (\<lambda>k. k * step) [0..<(stop + step - 1) div step]"

text \<open>\<^verbatim>\<open>[unique_ips[i:i+self.BATCH_SIZE] for i in range(0, len(unique_ips), self.BATCH_SIZE)]\<close>\<close>

definition batches_of :: "nat \<Rightarrow> 'a list \<Rightarrow> 'a list list" where
  "batches_of n xs = map (\<lambda>i. take n (drop i xs)) (range_step (length xs) n)"

text \<open>
  One turn of \<^verbatim>\<open>for batch_idx, batch in enumerate(batches)\<close>. \<open>post batch_idx batch\<close> is
  the reply to the bulk request of this batch. The sleep is the last statement of the
  \<^verbatim>\<open>try\<close> block: an exception before it (of the request, of
  \<^verbatim>\<open>raise_for_status\<close>, of \<^verbatim>\<open>response.json()\<close> or of the loop over the items) goes
  to the handler, which marks the batch and does not sleep.
\<close>

definition batch_step ::
  "(nat \<Rightarrow> string list \<Rightarrow> geo_json list reply) \<Rightarrow> nat \<Rightarrow>
   (string \<times> GeoData) list \<times> event list \<Rightarrow> nat \<times> string list \<Rightarrow>
   (string \<times> GeoData) list \<times> event list" where
  "batch_step post n_batches state turn =
     (case state of (results, trace) \<Rightarrow>
      case turn of (batch_idx, batch) \<Rightarrow>
        (case post batch_idx batch of
           ReqTimeout \<Rightarrow> (mark_failed batch results, trace @ [Request batch_idx])
         | ReqException \<Rightarrow> (mark_failed batch results, trace @ [Request batch_idx])
         | Response status_code body json \<Rightarrow>
             if raise_for_status status_code
             then (mark_failed batch results, trace @ [Request batch_idx])
             else (case json of
                     None \<Rightarrow> (mark_failed batch results, trace @ [Request batch_idx])
                   | Some data \<Rightarrow>
                       (case process_items data results of (results', raised) \<Rightarrow>
                          if raised
                          then (mark_failed batch results', trace @ [Request batch_idx])
                          else (results',
                                trace @ [Request batch_idx] @
                                (if int batch_idx < int n_batches - 1
                                 then [Sleep RATE_LIMIT_DELAY] else []))))))"

text \<open>
  \<^verbatim>\<open>locate_batch(self, ips)\<close>. \<open>list_set\<close> is \<^verbatim>\<open>list(set(...))\<close>: the elements without
  repetition, in the order in which the set hands them out.
\<close>

definition locate_batch ::
  "(string list \<Rightarrow> string list) \<Rightarrow> (nat \<Rightarrow> string list \<Rightarrow> geo_json list reply) \<Rightarrow>
   string list \<Rightarrow> (string \<times> GeoData) list \<times> event list" where
  "locate_batch list_set post ips =
     (let unique_ips = list_set ips;
          batches = batches_of BATCH_SIZE unique_ips
      in foldl (batch_step post (length batches)) ([], []) (List.enumerate 0 batches))"

text \<open>What is expected of \<^verbatim>\<open>list(set(xs))\<close>.\<close>

definition is_list_set :: "('a list \<Rightarrow> 'a list) \<Rightarrow> bool" where
  "is_list_set list_set = (\<forall>xs. distinct (list_set xs) \<and> set (list_set xs) = set xs)"

text \<open>
  The provider answers a batch well when the reply is a response without an error status
  whose JSON is a list of objects, each under the key \<^verbatim>\<open>query\<close> of an address of the
  batch, and every address of the batch is the \<^verbatim>\<open>query\<close> of one of them.
\<close>

definition query_of :: "geo_json \<Rightarrow> string option" where
  "query_of j = (case j of JObject item \<Rightarrow> j_query item | JOther \<Rightarrow> None)"

definition answers_batch :: "geo_json list reply \<Rightarrow> string list \<Rightarrow> bool" where
  "answers_batch r batch =
     (case r of
        Response status_code body (Some data) \<Rightarrow>
          \<not> raise_for_status status_code \<and> set (map query_of data) = Some ` set batch
      | _ \<Rightarrow> False)"

text \<open>The bulk query of a batch fails: the request, the status check or the JSON decoding raises.\<close>

definition query_fails :: "geo_json list reply \<Rightarrow> bool" where
  "query_fails r =
     (case r of
        ReqTimeout \<Rightarrow> True
      | ReqException \<Rightarrow> True
      | Response status_code body json \<Rightarrow> raise_for_status status_code \<or> json = None)"

text \<open>
  To state what \<^const>\<open>locate_batch\<close> leaves in its table: the items of a reply, and what a
  batch is owed. After a failed query every address of the batch has the record
  \<^const>\<open>failed_geo\<close>; after a good answer every address has the record made from an item
  that the provider sent for it.
\<close>

definition data_of :: "geo_json list reply \<Rightarrow> geo_json list" where
  "data_of r = (case r of Response status_code body (Some data) \<Rightarrow> data | _ \<Rightarrow> [])"

definition served ::
  "(nat \<Rightarrow> string list \<Rightarrow> geo_json list reply) \<Rightarrow> (string \<times> GeoData) list \<Rightarrow>
   nat \<times> string list \<Rightarrow> bool" where
  "served post results turn =
     (case turn of (batch_idx, batch) \<Rightarrow>
        (query_fails (post batch_idx batch) \<longrightarrow>
           (\<forall>a \<in> set batch. map_of results a = Some (failed_geo a))) \<and>
        (answers_batch (post batch_idx batch) batch \<longrightarrow>
           (\<forall>a \<in> set batch. \<exists>item. JObject item \<in> set (data_of (post batch_idx batch)) \<and>
               j_query item = Some a \<and> map_of results a = Some (geo_of_item item))))"

text \<open>
  To state when \<^const>\<open>locate_batch\<close> sleeps: the \<^verbatim>\<open>try\<close> block of a batch runs to its
  end when the request, the status check and the decoding succeed and every item is an
  object; the events of one turn of the loop are the request and, after a \<^verbatim>\<open>try\<close> block
  that ran to its end and was not the last, the sleep.
\<close>

definition completes :: "geo_json list reply \<Rightarrow> bool" where
  "completes r =
     (case r of
        Response status_code body (Some data) \<Rightarrow>
          \<not> raise_for_status status_code \<and> list_all (\<lambda>j. j \<noteq> JOther) data
      | _ \<Rightarrow> False)"

definition events_of ::
  "(nat \<Rightarrow> string list \<Rightarrow> geo_json list reply) \<Rightarrow> nat \<Rightarrow> nat \<times> string list \<Rightarrow> event list" where
  "events_of post n_batches turn =
     (case turn of (batch_idx, batch) \<Rightarrow>
        Request batch_idx #
        (if completes (post batch_idx batch) \<and> int batch_idx < int n_batches - 1
         then [Sleep RATE_LIMIT_DELAY] else []))"

subsection \<open>\<^verbatim>\<open>overseer.py\<close>: the orchestrator\<close>

text \<open>The command line, as \<^verbatim>\<open>parse_arguments\<close> returns it.\<close>

record args =
  target :: string
  output_path :: string
  csv :: "string option"
  threads :: int
  timeout :: rat
  theme :: string
  no_map :: bool

text \<open>Everything outside the program that one run meets.\<close>

record world =
  net :: providers
  workers :: pool
  list_set :: "string list \<Rightarrow> string list"
  geo_post :: "nat \<Rightarrow> string list \<Rightarrow> geo_json list reply"

text \<open>A row of the data frame: the dictionary appended to \<^verbatim>\<open>records\<close>.\<close>

record intel =
  rec_subdomain :: string
  rec_ip :: "string option"
  rec_cname :: "string option"
  rec_country :: "string option"
  rec_country_code :: "string option"
  rec_region :: "string option"
  rec_city :: "string option"
  rec_lat :: "rat option"
  rec_lon :: "rat option"
  rec_isp :: "string option"
  rec_org :: "string option"
  rec_as_number :: "string option"
  rec_geo_success :: bool

text \<open>The stages a run goes through, in the order in which it calls them.\<close>

datatype stage =
    Enumerate
  | Resolve
  | Geolocate
  | Aggregate
  | Summary
  | RenderMap
  | ExportCsv

text \<open>\<^verbatim>\<open>result.is_alive and result.ip\<close>: an address that is there and not empty.\<close>

definition alive :: "DNSResult \<Rightarrow> bool" where
  "alive result = (is_alive result \<and> ip result \<noteq> None \<and> ip result \<noteq> Some [])"

text \<open>The body of the loop of phase 4, with
  \<^verbatim>\<open>geo_results.get(ip, GeoData(ip=ip, success=False))\<close>.\<close>

definition aggregate :: "(string \<times> GeoData) list \<Rightarrow> string \<times> DNSResult \<Rightarrow> intel" where
  "aggregate geo_results host =
     (case host of (sub, dns_result) \<Rightarrow>
        (let a = or_empty (ip dns_result);
             geo = (case map_of geo_results a of Some g \<Rightarrow> g | None \<Rightarrow> failed_geo a)
         in \<lparr>rec_subdomain = sub, rec_ip = ip dns_result, rec_cname = cname dns_result,
             rec_country = country geo, rec_country_code = country_code geo,
             rec_region = region geo, rec_city = city geo, rec_lat = lat geo,
             rec_lon = lon geo, rec_isp = isp geo, rec_org = org geo,
             rec_as_number = as_number geo, rec_geo_success = success geo\<rparr>))"

text \<open>
  \<^verbatim>\<open>run_reconnaissance(args)\<close>: what it returns (\<open>Inr None\<close> is Python's \<^verbatim>\<open>None\<close>,
  \<open>Inl e\<close> an exception that leaves the function) and the stages it has called.
\<close>

definition run_reconnaissance ::
  "world \<Rightarrow> args \<Rightarrow> (exn + intel list option) \<times> stage list" where
  "run_reconnaissance w a =
     (let tgt = str_strip (str_lower (target a));
          subdomains = enumerate_ct (net w) tgt
      in if subdomains = {} then (Inr None, [Enumerate])
         else
           (let subdomain_list = sorted_list_of_set (insert tgt subdomains)
            in case resolve_bulk (threads a) (workers w) subdomain_list of
                 Inl e \<Rightarrow> (Inl e, [Enumerate, Resolve])
               | Inr dns_results \<Rightarrow>
                   (let alive_hosts = filter (\<lambda>(sub, result). alive result) dns_results
                    in if alive_hosts = [] then (Inr None, [Enumerate, Resolve])
                       else
                         (let unique_ips =
                                list_set w (List.map_filter (\<lambda>(sub, result). ip result) alive_hosts);
                              geo_results = fst (locate_batch (list_set w) (geo_post w) unique_ips);
                              records = map (aggregate geo_results) alive_hosts;
                              map_points =
                                filter (\<lambda>row. rec_lat row \<noteq> None \<and> rec_lon row \<noteq> None) records
                          in (Inr (Some records),
                              [Enumerate, Resolve, Geolocate, Aggregate, Summary] @
                              (if \<not> no_map a \<and> map_points \<noteq> [] then [RenderMap] else []) @
                              (if csv a \<noteq> None \<and> csv a \<noteq> Some [] then [ExportCsv] else []))))))"

text \<open>
  \<^verbatim>\<open>main()\<close>: it returns after a complete run, leaves with \<^verbatim>\<open>sys.exit(1)\<close> when
  \<^verbatim>\<open>run_reconnaissance\<close> returned \<^verbatim>\<open>None\<close> (the panel reads
  ``RECONNAISSANCE INCOMPLETE, Insufficient data collected''), and raises again the exception
  of a run that crashed.
\<close>

datatype outcome = Returned | SystemExit nat | Raised exn

definition main :: "world \<Rightarrow> args \<Rightarrow> outcome \<times> stage list" where
  "main w a =
     (case run_reconnaissance w a of
        (Inr (Some df), stages) \<Rightarrow> (Returned, stages)
      | (Inr None, stages) \<Rightarrow> (SystemExit 1, stages)
      | (Inl e, stages) \<Rightarrow> (Raised e, stages))"

subsection \<open>Example runs\<close>

text \<open>
  The command line \<^verbatim>\<open>--target "Example.com "\<close>, and three worlds for it. In the first the
  primary source lists \<^verbatim>\<open>api.example.com\<close>, \<^verbatim>\<open>*.example.com\<close> and
  \<^verbatim>\<open>old.example.com\<close>, and the DNS knows \<^verbatim>\<open>api.example.com\<close> and the target itself;
  in the second the DNS knows no name; in the third no source answers.
\<close>

definition example_args :: args where
  "example_args =
     \<lparr>target = ''Example.com '', output_path = ''attack_surface.html'', csv = None,
      threads = 50, timeout = 3, theme = ''dark'', no_map = False\<rparr>"

definition scenario_net :: providers where
  "scenario_net =
     \<lparr>crtsh = (\<lambda>attempt. Response 200 ''[...]''
                (Some [Some ''api.example.com'', Some ''*.example.com'', Some ''old.example.com''])),
      certspotter = ReqException,
      hackertarget = ReqException\<rparr>"

definition silent_net :: providers where
  "silent_net =
     \<lparr>crtsh = (\<lambda>attempt. ReqException), certspotter = ReqException, hackertarget = ReqException\<rparr>"

definition scenario_dns :: resolver where
  "scenario_dns name t =
     (if t = CNAME then NoAnswer
      else if name = ''api.example.com'' then Answer ''203.0.113.5'' []
      else if name = ''example.com'' then Answer ''203.0.113.7'' []
      else NXDOMAIN)"

definition scenario_world :: world where
  "scenario_world =
     \<lparr>net = scenario_net,
      workers = \<lparr>dns = (\<lambda>i. scenario_dns), fault = (\<lambda>i. None), as_completed = rev\<rparr>,
      list_set = remdups,
      geo_post = (\<lambda>batch_idx batch. ReqTimeout)\<rparr>"

definition dead_world :: world where
  "dead_world =
     \<lparr>net = scenario_net,
      workers = \<lparr>dns = (\<lambda>i name t. NXDOMAIN), fault = (\<lambda>i. None), as_completed = rev\<rparr>,
      list_set = remdups,
      geo_post = (\<lambda>batch_idx batch. ReqTimeout)\<rparr>"

definition silent_world :: world where
  "silent_world =
     \<lparr>net = silent_net,
      workers = \<lparr>dns = (\<lambda>i name t. NXDOMAIN), fault = (\<lambda>i. None), as_completed = rev\<rparr>,
      list_set = remdups,
      geo_post = (\<lambda>batch_idx batch. ReqTimeout)\<rparr>"

text \<open>An item as the geolocation provider sends it for \<^verbatim>\<open>8.8.8.8\<close>.\<close>

definition example_item :: geo_item where
  "example_item =
     \<lparr>j_query = Some ''8.8.8.8'', j_status = Some ''success'',
      j_country = Some ''United States'', j_countryCode = Some ''US'',
      j_regionName = Some ''Virginia'', j_city = Some ''Ashburn'',
      j_lat = Some 39, j_lon = Some (- 77), j_isp = Some ''Google LLC'',
      j_org = Some ''Google Public DNS'', j_as = Some ''AS15169 Google LLC''\<rparr>"

section \<open>Properties\<close>

subsection \<open>Strings\<close>

lemma str_startswith_iff: "str_startswith s p \<longleftrightarrow> (\<exists>t. s = p @ t)"
  by (induction s p rule: str_startswith.induct) auto

lemma str_endswith_iff: "str_endswith s suf \<longleftrightarrow> (\<exists>t. s = t @ suf)"
proof -
  have "str_endswith s suf \<longleftrightarrow> (\<exists>t. rev s = rev suf @ t)"
    by (simp add: str_endswith_def str_startswith_iff)
  also have "\<dots> \<longleftrightarrow> (\<exists>t. s = t @ suf)"
  proof
    assume "\<exists>t. rev s = rev suf @ t"
    then obtain t where "rev s = rev suf @ t" by blast
    then have "rev (rev s) = rev (rev suf @ t)" by simp
    then have "s = rev t @ suf" by simp
    then show "\<exists>t. s = t @ suf" by blast
  next
    assume "\<exists>t. s = t @ suf"
    then obtain t where "s = t @ suf" by blast
    then have "rev s = rev suf @ rev t" by simp
    then show "\<exists>t. rev s = rev suf @ t" by blast
  qed
  finally show ?thesis .
qed

lemma str_contains_iff: "str_contains s sub \<longleftrightarrow> (\<exists>a b. s = a @ sub @ b)"
proof (induction s)
  case Nil
  then show ?case by auto
next
  case (Cons c cs)
  show ?case
  proof
    assume "str_contains (c # cs) sub"
    then consider "str_startswith (c # cs) sub" | "str_contains cs sub" by auto
    then show "\<exists>a b. c # cs = a @ sub @ b"
    proof cases
      case 1
      then obtain t where "c # cs = sub @ t" by (auto simp: str_startswith_iff)
      then have "c # cs = [] @ sub @ t" by simp
      then show ?thesis by blast
    next
      case 2
      then obtain a b where "cs = a @ sub @ b" using Cons.IH by auto
      then have "c # cs = (c # a) @ sub @ b" by simp
      then show ?thesis by blast
    qed
  next
    assume "\<exists>a b. c # cs = a @ sub @ b"
    then obtain a b where ab: "c # cs = a @ sub @ b" by blast
    show "str_contains (c # cs) sub"
    proof (cases a)
      case Nil
      then have "str_startswith (c # cs) sub" using ab by (auto simp: str_startswith_iff)
      then show ?thesis by simp
    next
      case (Cons x xs)
      then have "cs = xs @ sub @ b" using ab by simp
      then have "str_contains cs sub" using Cons.IH by blast
      then show ?thesis by simp
    qed
  qed
qed

lemma str_lower_append: "str_lower (a @ b) = str_lower a @ str_lower b"
  by (simp add: str_lower_def)

subsection \<open>The pattern of \<^const>\<open>clean_subdomain\<close>\<close>











lemma clean_subdomain_normalized:
  "clean_subdomain name domain =
     (if str_endswith (normalized name) domain \<and> normalized name \<noteq> domain \<and>
         re_match_anchored SUBDOMAIN_RE (normalized name)
      then Some (normalized name) else None)"
  by (simp add: clean_subdomain_def normalized_def strip_wildcards_def Let_def)


subsection \<open>Cleaning and enumerating names\<close>

lemmas clean_eval =
  clean_subdomain_def str_endswith_def str_strip_def isspace_def str_lower_def lower_char_def
  ascii_uppercase_def ascii_lowercase_def latin1_uppercase_def latin1_lowercase_def
  re_match_anchored_def SUBDOMAIN_RE_def alnum_def alnum_dash_dot_def digits_def




























text \<open>What \<^verbatim>\<open>enumerate\<close> returns has passed \<^const>\<open>clean_subdomain\<close>.\<close>

lemma set_map_filter_iff: "y \<in> set (List.map_filter f xs) \<longleftrightarrow> (\<exists>x \<in> set xs. f x = Some y)"
  by (induction xs) (auto simp: List.map_filter_simps split: option.splits)

lemma clean_subdomain_SomeD:
  assumes "clean_subdomain name domain = Some r"
  shows "r \<noteq> domain \<and> (\<exists>t. r = t @ domain)"
proof -
  from assms have "str_endswith r domain" "r \<noteq> domain"
    by (auto simp: clean_subdomain_normalized split: if_splits)
  then show ?thesis by (simp add: str_endswith_iff)
qed

lemma clean_all_iff: "r \<in> clean_all domain names \<longleftrightarrow> (\<exists>n \<in> set names. clean_subdomain n domain = Some r)"
  by (simp add: clean_all_def set_map_filter_iff)

lemma crtsh_loop_cleaned:
  "r \<in> fst (crtsh_loop get domain attempts) \<Longrightarrow> \<exists>n. clean_subdomain n domain = Some r"
  by (induction attempts)
     (auto split: reply.splits if_splits option.splits prod.splits simp: clean_all_iff)

lemma enumerate_ct_cleaned:
  assumes "r \<in> enumerate_ct nw domain"
  shows "\<exists>n. clean_subdomain n domain = Some r"
proof -
  have cs: "\<exists>n. clean_subdomain n domain = Some r" if "r \<in> query_certspotter x domain" for x
    using that by (auto simp: query_certspotter_def clean_all_iff split: reply.splits if_splits option.splits)
  have ht: "\<exists>n. clean_subdomain n domain = Some r" if "r \<in> query_hackertarget x domain" for x
    using that by (auto simp: query_hackertarget_def clean_all_iff split: reply.splits if_splits option.splits)
  have crt: "\<exists>n. clean_subdomain n domain = Some r" if "r \<in> fst (query_crtsh x domain)" for x
    using that crtsh_loop_cleaned by (simp add: query_crtsh_def)
  from assms consider "r \<in> fst (query_crtsh (crtsh nw) domain)"
    | "r \<in> query_certspotter (certspotter nw) domain"
    | "r \<in> query_hackertarget (hackertarget nw) domain"
    by (auto simp: enumerate_ct_def Let_def split: if_splits)
  then show ?thesis using cs ht crt by cases auto
qed

lemma enumerate_ct_not_target: "domain \<notin> enumerate_ct nw domain"
  using enumerate_ct_cleaned clean_subdomain_SomeD by blast

text \<open>
  Claim C7 says that every name that \<^verbatim>\<open>enumerate\<close> returns lies strictly beneath the
  target, that is, has the form labels, dot, target. The code tests
  \<^verbatim>\<open>name.endswith(domain)\<close> only: when crt.sh lists \<^verbatim>\<open>notexample.com\<close> for the
  target \<^verbatim>\<open>example.com\<close>, the name is returned, and it is not of that form.
\<close>

theorem enumerate_returns_non_subdomain:
  "enumerate_ct
     \<lparr>crtsh = (\<lambda>attempt. Response 200 ''[...]''
                (Some [Some (''www.example.com'' @ [CHR 0x0A] @ ''notexample.com'')])),
      certspotter = ReqException, hackertarget = ReqException\<rparr>
     ''example.com'' = {''www.example.com'', ''notexample.com''} \<and>
   \<not> (\<exists>labels. labels \<noteq> [] \<and> ''notexample.com'' = labels @ ''.'' @ ''example.com'')"
proof -
  have "query_crtsh (\<lambda>attempt. Response 200 ''[...]''
            (Some [Some (''www.example.com'' @ [CHR 0x0A] @ ''notexample.com'')])) ''example.com''
        = ({''www.example.com'', ''notexample.com''}, [Request 0])"
    apply (simp add: query_crtsh_def MAX_RETRIES_def upt_rec raise_for_status_def
        str_strip_def isspace_def clean_all_def crtsh_names_def or_empty_def
        List.map_filter_simps)
    apply (simp add: clean_eval)
    done
  then have "enumerate_ct
     \<lparr>crtsh = (\<lambda>attempt. Response 200 ''[...]''
                (Some [Some (''www.example.com'' @ [CHR 0x0A] @ ''notexample.com'')])),
      certspotter = ReqException, hackertarget = ReqException\<rparr>
     ''example.com'' = {''www.example.com'', ''notexample.com''}"
    by (simp add: enumerate_ct_def Let_def query_certspotter_def query_hackertarget_def)
  moreover have
    "\<not> (\<exists>labels. labels \<noteq> [] \<and> ''notexample.com'' = labels @ ''.'' @ ''example.com'')"
    by (auto simp: Cons_eq_append_conv)
  ultimately show ?thesis by simp
qed

subsection \<open>The retry loop of crt.sh\<close>

lemma crtsh_loop_step:
  "crtsh_loop get domain (a # rest) =
     (if timed_out (get a) then
        (fst (crtsh_loop get domain rest),
         Request a # (if a + 1 < MAX_RETRIES then [Sleep RETRY_DELAY] else []) @
         snd (crtsh_loop get domain rest))
      else if unavailable (get a) then
        (fst (crtsh_loop get domain rest),
         Request a # (if a + 1 < MAX_RETRIES then [Sleep (RETRY_DELAY * of_nat (a + 1))] else []) @
         snd (crtsh_loop get domain rest))
      else (if hard_error (get a) then {}
            else (case get a of
                    Response status_code body (Some data) \<Rightarrow>
                      if str_strip body = [] then {} else clean_all domain (crtsh_names data)
                  | _ \<Rightarrow> {}),
            [Request a]))"
  by (auto simp: timed_out_def unavailable_def hard_error_def MAX_RETRIES_def
      split: reply.splits prod.splits option.splits)

lemma crtsh_loop_Nil: "crtsh_loop get domain [] = ({}, [])"
  by simp

lemma attempts_list: "[0..<MAX_RETRIES] = [0, 1, 2]"
  by (simp add: MAX_RETRIES_def upt_rec)

lemma all_less_1: "(\<forall>j<(1::nat). P j) \<longleftrightarrow> P 0"
  by auto

lemma all_less_2: "(\<forall>j<(2::nat). P j) \<longleftrightarrow> P 0 \<and> P 1"
  by (auto simp: less_Suc_eq numeral_2_eq_2)

lemma reply_kinds:
  "\<not> (unavailable r \<and> timed_out r)" "\<not> (hard_error r \<and> timed_out r)"
  "\<not> (hard_error r \<and> unavailable r)"
  by (auto simp: unavailable_def timed_out_def hard_error_def split: reply.splits)

lemma query_crtsh_unfold:
  "query_crtsh get domain =
     crtsh_loop get domain [0, 1, 2]"
  by (simp add: query_crtsh_def attempts_list)

lemma attempt_ok_0: "attempt_ok get domain 0"
  unfolding attempt_ok_def query_crtsh_unfold
  apply (simp only: crtsh_loop_step crtsh_loop_Nil)
  using reply_kinds [of "get 0"] reply_kinds [of "get 1"] reply_kinds [of "get 2"]
  apply (simp add: MAX_RETRIES_def following_def)
  done

lemma attempt_ok_1: "attempt_ok get domain 1"
  unfolding attempt_ok_def query_crtsh_unfold
  apply (simp only: crtsh_loop_step crtsh_loop_Nil)
  using reply_kinds [of "get 0"] reply_kinds [of "get 1"] reply_kinds [of "get 2"]
  apply (simp add: MAX_RETRIES_def following_def all_less_1)
  apply blast
  done

lemma attempt_ok_2: "attempt_ok get domain 2"
  unfolding attempt_ok_def query_crtsh_unfold
  apply (simp only: crtsh_loop_step crtsh_loop_Nil)
  using reply_kinds [of "get 0"] reply_kinds [of "get 1"] reply_kinds [of "get 2"]
  apply (simp add: MAX_RETRIES_def following_def all_less_2)
  done

lemma requests_bound: "length (requests (snd (query_crtsh get domain))) \<le> MAX_RETRIES"
  unfolding query_crtsh_unfold
  apply (simp only: crtsh_loop_step crtsh_loop_Nil)
  apply (simp add: MAX_RETRIES_def requests_def List.map_filter_simps)
  done


lemma timeouts_trace:
  "snd (query_crtsh (\<lambda>attempt. ReqTimeout) ''example.com'') =
     [Request 0, Sleep 2, Request 1, Sleep 2, Request 2]"
  by (simp add: query_crtsh_unfold MAX_RETRIES_def RETRY_DELAY_def)

lemma http500_trace:
  "snd (query_crtsh (\<lambda>attempt. Response 500 ''Internal Server Error'' None) ''example.com'') =
     [Request 0]"
  by (simp add: query_crtsh_unfold MAX_RETRIES_def RETRY_DELAY_def raise_for_status_def)

lemma http503_trace:
  "snd (query_crtsh (\<lambda>attempt. Response 503 ''Service Unavailable'' None) ''example.com'') =
     [Request 0, Sleep 2, Request 1, Sleep 4, Request 2]"
  by (simp add: query_crtsh_unfold MAX_RETRIES_def RETRY_DELAY_def raise_for_status_def)

text \<open>
  Claim C5, as stated, fails twice. After a timeout the code sleeps \<^verbatim>\<open>RETRY_DELAY\<close>, not
  \<^verbatim>\<open>RETRY_DELAY * attemptNumber\<close>: three timeouts give the sleeps 2 and 2, never 4. And
  only the status 503 counts as unavailable: a 500 ends the provider at the first attempt.
\<close>

theorem crtsh_backoff_counterexample:
  "snd (query_crtsh (\<lambda>attempt. ReqTimeout) ''example.com'') =
     [Request 0, Sleep RETRY_DELAY, Request 1, Sleep RETRY_DELAY, Request 2] \<and>
   Sleep (RETRY_DELAY * 2) \<notin> set (snd (query_crtsh (\<lambda>attempt. ReqTimeout) ''example.com'')) \<and>
   snd (query_crtsh (\<lambda>attempt. Response 500 ''Internal Server Error'' None) ''example.com'') =
     [Request 0]"
  by (simp add: timeouts_trace http500_trace RETRY_DELAY_def)

text \<open>
  Claim C5, amended. At most \<^const>\<open>MAX_RETRIES\<close> = 3 attempts are made, and attempt \<open>a\<close>
  (from 0) is made exactly when all earlier ones were answered by a 503 or timed out. After a
  503 the next attempt follows a sleep of \<^verbatim>\<open>RETRY_DELAY * (a + 1)\<close>, that is, base times
  the number of the attempt; after a timeout the next attempt follows as well (the length of
  that sleep is left open here); the last attempt is followed by nothing. A hard error (an
  exception of the request other than a timeout, an error status other than 503, a text that
  is not JSON) ends the provider at once, with no names.
\<close>

theorem crtsh_retry_policy:
  "length (requests (snd (query_crtsh get domain))) \<le> MAX_RETRIES \<and>
   (\<forall>a < MAX_RETRIES.
      (Request a \<in> set (snd (query_crtsh get domain)) \<longleftrightarrow>
         (\<forall>j < a. unavailable (get j) \<or> timed_out (get j))) \<and>
      (Request a \<in> set (snd (query_crtsh get domain)) \<longrightarrow>
         (unavailable (get a) \<and> a + 1 < MAX_RETRIES \<longrightarrow>
            take 2 (following (Request a) (snd (query_crtsh get domain))) =
              [Sleep (RETRY_DELAY * of_nat (a + 1)), Request (a + 1)]) \<and>
         (timed_out (get a) \<and> a + 1 < MAX_RETRIES \<longrightarrow>
            Request (a + 1) \<in> set (following (Request a) (snd (query_crtsh get domain)))) \<and>
         ((unavailable (get a) \<or> timed_out (get a)) \<and> a + 1 = MAX_RETRIES \<longrightarrow>
            following (Request a) (snd (query_crtsh get domain)) = []) \<and>
         (hard_error (get a) \<longrightarrow>
            following (Request a) (snd (query_crtsh get domain)) = [] \<and>
            fst (query_crtsh get domain) = {})))"
proof -
  have "a = 0 \<or> a = 1 \<or> a = 2" if "a < MAX_RETRIES" for a
    using that by (auto simp: MAX_RETRIES_def)
  then have "\<forall>a < MAX_RETRIES. attempt_ok get domain a"
    using attempt_ok_0 attempt_ok_1 attempt_ok_2 by blast
  then show ?thesis
    using requests_bound unfolding attempt_ok_def by blast
qed

theorem crtsh_retry_policy_witness:
  "(1::nat) < MAX_RETRIES \<and>
   unavailable (Response 503 ''Service Unavailable'' (None :: crtsh_entry list option)) \<and>
   Request 1 \<in> set (snd (query_crtsh (\<lambda>attempt. Response 503 ''Service Unavailable'' None)
                            ''example.com'')) \<and>
   take 2 (following (Request 1)
     (snd (query_crtsh (\<lambda>attempt. Response 503 ''Service Unavailable'' None) ''example.com''))) =
     [Sleep (RETRY_DELAY * 2), Request 2]"
proof -
  let ?get = "\<lambda>attempt::nat. Response 503 ''Service Unavailable'' (None :: crtsh_entry list option)"
  have m: "(1::nat) < MAX_RETRIES" "(1::nat) + 1 < MAX_RETRIES" by (simp_all add: MAX_RETRIES_def)
  have u: "unavailable (?get j)" for j by (simp add: unavailable_def)
  from crtsh_retry_policy [of ?get "''example.com''"] m(1)
  have p: "(Request 1 \<in> set (snd (query_crtsh ?get ''example.com'')) \<longleftrightarrow>
         (\<forall>j < 1. unavailable (?get j) \<or> timed_out (?get j)))"
    and q: "Request 1 \<in> set (snd (query_crtsh ?get ''example.com'')) \<longrightarrow>
         (unavailable (?get 1) \<and> (1::nat) + 1 < MAX_RETRIES \<longrightarrow>
            take 2 (following (Request 1) (snd (query_crtsh ?get ''example.com''))) =
              [Sleep (RETRY_DELAY * of_nat (1 + 1)), Request (1 + 1)])"
    by blast+
  from p u have r: "Request 1 \<in> set (snd (query_crtsh ?get ''example.com''))" by blast
  with q u m(2) have "take 2 (following (Request 1) (snd (query_crtsh ?get ''example.com''))) =
              [Sleep (RETRY_DELAY * of_nat (1 + 1)), Request (1 + 1)]" by blast
  then show ?thesis using m(1) u r by simp
qed

subsection \<open>DNS resolution\<close>

text \<open>
  Claim C8. For every name, \<^verbatim>\<open>resolve_single\<close> returns one record for that name, decided
  by the address lookup alone: an answer gives \<open>is_alive = True\<close>, the first address and no
  error; NXDOMAIN, NoAnswer and Timeout give a dead record with the error \<^verbatim>\<open>NXDOMAIN\<close>
  (the kind NotFound), \<^verbatim>\<open>NoAnswer\<close> and \<^verbatim>\<open>Timeout\<close>; every other exception gives a dead
  record that keeps the message of the exception. The CNAME query is sent once, after the
  address query and only when that one was answered; when it is answered the alias is its
  first record, and when it fails the alias stays empty and the record stays alive and
  without error.
\<close>

theorem resolve_single_outcomes:
  "(case resolve_single resolve sub of (r, queries) \<Rightarrow>
      subdomain r = sub \<and>
      (is_alive r \<longleftrightarrow> (\<exists>first others. resolve sub A = Answer first others)) \<and>
      (\<forall>first others. resolve sub A = Answer first others \<longrightarrow>
         is_alive r \<and> ip r = Some first \<and> error r = None) \<and>
      (resolve sub A = NXDOMAIN \<longrightarrow> \<not> is_alive r \<and> error r = Some ''NXDOMAIN'') \<and>
      (resolve sub A = NoAnswer \<longrightarrow> \<not> is_alive r \<and> error r = Some ''NoAnswer'') \<and>
      (resolve sub A = Timeout \<longrightarrow> \<not> is_alive r \<and> error r = Some ''Timeout'') \<and>
      (\<forall>msg. resolve sub A = OtherException msg \<longrightarrow> \<not> is_alive r \<and> error r = Some msg) \<and>
      (\<not> is_alive r \<longrightarrow> ip r = None \<and> cname r = None \<and> error r \<noteq> None) \<and>
      queries = (sub, A) # (if is_alive r then [(sub, CNAME)] else []) \<and>
      (is_alive r \<longrightarrow>
         cname r = (case resolve sub CNAME of Answer alias others \<Rightarrow> Some alias | _ \<Rightarrow> None)))"
  by (cases "resolve sub A") (simp_all add: resolve_single_def)

theorem resolve_single_outcomes_witness:
  "fst (resolve_single (\<lambda>name t. if t = A then Answer ''203.0.113.5'' [] else NXDOMAIN)
          ''api.example.com'') =
     \<lparr>subdomain = ''api.example.com'', ip = Some ''203.0.113.5'', is_alive = True,
      cname = None, error = None\<rparr> \<and>
   snd (resolve_single (\<lambda>name t. if t = A then Answer ''203.0.113.5'' [] else NXDOMAIN)
          ''api.example.com'') =
     [(''api.example.com'', A), (''api.example.com'', CNAME)] \<and>
   error (fst (resolve_single (\<lambda>name t. NXDOMAIN) ''old.example.com'')) = Some ''NXDOMAIN'' \<and>
   snd (resolve_single (\<lambda>name t. NXDOMAIN) ''old.example.com'') = [(''old.example.com'', A)]"
proof -
  let ?up = "\<lambda>(name::string) t. if t = A then Answer ''203.0.113.5'' [] else NXDOMAIN"
  let ?down = "\<lambda>(name::string) (t::rdtype). NXDOMAIN"
  obtain r queries where rq: "resolve_single ?up ''api.example.com'' = (r, queries)"
    by (cases "resolve_single ?up ''api.example.com''")
  obtain r' queries' where rq': "resolve_single ?down ''old.example.com'' = (r', queries')"
    by (cases "resolve_single ?down ''old.example.com''")
  from resolve_single_outcomes [where resolve = ?up and sub = "''api.example.com''"] rq
  have "subdomain r = ''api.example.com''" "is_alive r" "ip r = Some ''203.0.113.5''"
    "error r = None" "cname r = None" "queries = [(''api.example.com'', A), (''api.example.com'', CNAME)]"
    by simp_all
  moreover from resolve_single_outcomes [where resolve = ?down and sub = "''old.example.com''"] rq'
  have "error r' = Some ''NXDOMAIN''" "queries' = [(''old.example.com'', A)]"
    by simp_all
  ultimately show ?thesis
    using rq rq' by (cases r) simp
qed

lemma map_of_collect:
  "map_of (collect p results (i, sub)) =
     (map_of results)(sub \<mapsto>
        (case future_result p i sub of
           Inr result \<Rightarrow> result
         | Inl msg \<Rightarrow> \<lparr>subdomain = sub, ip = None, is_alive = False, cname = None, error = Some msg\<rparr>))"
  by (simp add: collect_def update_conv' split: sum.splits)

lemma keys_collect:
  "fst ` set (collect p results (i, sub)) = insert sub (fst ` set results)"
  by (simp add: collect_def dom_update split: sum.splits)

lemma distinct_collect:
  "distinct (map fst results) \<Longrightarrow> distinct (map fst (collect p results fut))"
  by (cases fut) (simp add: collect_def distinct_update split: sum.splits)

lemma keys_foldl_collect:
  "fst ` set (foldl (collect p) results futs) = fst ` set results \<union> snd ` set futs"
proof (induction futs arbitrary: results)
  case Nil
  then show ?case by simp
next
  case (Cons fut futs)
  obtain i sub where fut: "fut = (i, sub)" by (cases fut)
  show ?case
    by (simp add: Cons.IH fut keys_collect)
qed

lemma distinct_foldl_collect:
  "distinct (map fst results) \<Longrightarrow> distinct (map fst (foldl (collect p) results futs))"
  by (induction futs arbitrary: results) (simp_all add: distinct_collect)

lemma subdomain_future_result:
  "future_result p i sub = Inr r \<Longrightarrow> subdomain r = sub"
  by (auto simp: future_result_def resolve_single_def split: option.splits dns_reply.splits)

lemma own_record_update:
  "own_record results \<Longrightarrow> subdomain r = sub \<Longrightarrow> own_record (AList.update sub r results)"
  by (induction results) (auto simp: own_record_def)

lemma own_record_collect: "own_record results \<Longrightarrow> own_record (collect p results fut)"
proof -
  assume a: "own_record results"
  obtain i sub where fut: "fut = (i, sub)" by (cases fut)
  show ?thesis
  proof (cases "future_result p i sub")
    case (Inl msg)
    then show ?thesis
      using a by (simp add: fut collect_def own_record_update)
  next
    case (Inr r)
    then have "subdomain r = sub" by (rule subdomain_future_result)
    then show ?thesis
      using a Inr by (simp add: fut collect_def own_record_update)
  qed
qed

lemma own_record_foldl: "own_record results \<Longrightarrow> own_record (foldl (collect p) results futs)"
  by (induction futs arbitrary: results) (simp_all add: own_record_collect)

lemma dead_update:
  "list_all dead_record results \<Longrightarrow> dead_record (sub, r) \<Longrightarrow>
   list_all dead_record (AList.update sub r results)"
  by (induction results) auto

lemma dead_collect:
  assumes "list_all dead_record results"
    and "fault p (fst fut) \<noteq> None \<or> (\<forall>first others. dns p (fst fut) (snd fut) A \<noteq> Answer first others)"
  shows "list_all dead_record (collect p results fut)"
proof -
  obtain i sub where fut: "fut = (i, sub)" by (cases fut)
  have "dead_record (sub, r)" if "future_result p i sub = Inr r" for r
    using that assms(2)
    by (auto simp: fut future_result_def resolve_single_def dead_record_def
        split: option.splits dns_reply.splits)
  then show ?thesis
    using assms(1)
    by (cases "future_result p i sub") (simp_all add: fut collect_def dead_update dead_record_def)
qed

lemma dead_foldl:
  assumes "list_all dead_record results"
    and "\<forall>fut \<in> set futs. fault p (fst fut) \<noteq> None \<or>
           (\<forall>first others. dns p (fst fut) (snd fut) A \<noteq> Answer first others)"
  shows "list_all dead_record (foldl (collect p) results futs)"
  using assms by (induction futs arbitrary: results) (simp_all add: dead_collect)

lemma set_as_completed:
  assumes "\<forall>futs. mset (as_completed p futs) = mset futs"
  shows "set (as_completed p futs) = set futs"
  using assms by (metis set_mset_mset)

text \<open>
  Claim C3. For every list of names, every bound of at least one worker and every DNS
  (whatever its timeout makes it answer), \<^verbatim>\<open>resolve_bulk\<close> returns a table whose keys are
  exactly the names of the list, each once, and each name has a record of its own. Nothing is
  assumed of the workers: a lookup may fail and a worker may raise, which gives a record of a
  failed lookup; when all of them do, every record is one. The order in which
  \<^verbatim>\<open>as_completed\<close> hands the futures back is any rearrangement of them.
\<close>

theorem resolve_bulk_total:
  assumes "1 \<le> max_workers"
    and "\<forall>futs. mset (as_completed p futs) = mset futs"
  shows "\<exists>results. resolve_bulk max_workers p subdomains = Inr results \<and>
           set (map fst results) = set subdomains \<and>
           distinct (map fst results) \<and>
           (\<forall>sub \<in> set subdomains. \<exists>r. map_of results sub = Some r \<and> subdomain r = sub) \<and>
           ((\<forall>i sub. fault p i \<noteq> None \<or> (\<forall>first others. dns p i sub A \<noteq> Answer first others)) \<longrightarrow>
              list_all dead_record results)"
proof -
  let ?futs = "as_completed p (List.enumerate 0 subdomains)"
  let ?results = "foldl (collect p) [] ?futs"
  have r: "resolve_bulk max_workers p subdomains = Inr ?results"
    using assms(1) by (simp add: resolve_bulk_def)
  have "snd ` set ?futs = set subdomains"
    using set_as_completed [OF assms(2)] by (metis list.set_map map_snd_enumerate)
  then have keys: "set (map fst ?results) = set subdomains"
    by (simp add: keys_foldl_collect)
  have d: "distinct (map fst ?results)"
    by (rule distinct_foldl_collect) simp
  have own: "own_record ?results"
    by (rule own_record_foldl) (simp add: own_record_def)
  have each: "\<exists>r. map_of ?results sub = Some r \<and> subdomain r = sub" if "sub \<in> set subdomains" for sub
  proof -
    from that keys obtain r where m: "(sub, r) \<in> set ?results" by force
    then have "map_of ?results sub = Some r" using d by simp
    moreover have "subdomain r = sub" using own m by (auto simp: own_record_def list_all_iff)
    ultimately show ?thesis by blast
  qed
  have dead: "list_all dead_record ?results"
    if "\<forall>i sub. fault p i \<noteq> None \<or> (\<forall>first others. dns p i sub A \<noteq> Answer first others)"
    using that by (intro dead_foldl) auto
  show ?thesis using r keys d each dead by blast
qed

theorem resolve_bulk_total_witness:
  "(1::int) \<le> 2 \<and>
   (\<forall>futs. mset (as_completed
      \<lparr>dns = (\<lambda>i name t. NXDOMAIN), fault = (\<lambda>i. if i = 0 then Some ''boom'' else None),
       as_completed = rev\<rparr> futs) = mset futs) \<and>
   (\<exists>results.
      resolve_bulk 2
        \<lparr>dns = (\<lambda>i name t. NXDOMAIN), fault = (\<lambda>i. if i = 0 then Some ''boom'' else None),
         as_completed = rev\<rparr>
        [''a.example.com'', ''b.example.com''] = Inr results \<and>
      set (map fst results) = {''a.example.com'', ''b.example.com''} \<and>
      distinct (map fst results) \<and>
      list_all dead_record results)"
proof -
  let ?p = "\<lparr>dns = (\<lambda>(i::nat) (name::string) (t::rdtype). NXDOMAIN),
             fault = (\<lambda>i::nat. if i = 0 then Some ''boom'' else None),
             as_completed = (rev :: (nat \<times> string) list \<Rightarrow> (nat \<times> string) list)\<rparr>"
  have k: "(1::int) \<le> 2" by simp
  have perm: "\<forall>futs. mset (as_completed ?p futs) = mset futs" by simp
  have fails: "\<forall>i sub. fault ?p i \<noteq> None \<or> (\<forall>first others. dns ?p i sub A \<noteq> Answer first others)"
    by simp
  from resolve_bulk_total [OF k perm, of "[''a.example.com'', ''b.example.com'']"] fails
  show ?thesis using k perm by auto
qed

subsection \<open>The risk tier\<close>

lemma occurs_ignoring_case_iff:
  assumes "str_lower fragment = fragment"
  shows "occurs_ignoring_case fragment s \<longleftrightarrow> str_contains (str_lower s) fragment"
proof
  assume "occurs_ignoring_case fragment s"
  then obtain a m b where "s = a @ m @ b" "str_lower m = fragment"
    using assms by (auto simp: occurs_ignoring_case_def)
  then have "str_lower s = str_lower a @ fragment @ str_lower b"
    by (simp add: str_lower_def)
  then show "str_contains (str_lower s) fragment"
    unfolding str_contains_iff by blast
next
  assume "str_contains (str_lower s) fragment"
  then obtain a b where "map lower_char s = a @ fragment @ b"
    unfolding str_contains_iff str_lower_def by blast
  then have "\<exists>us vs. s = us @ vs \<and> a = map lower_char us \<and> fragment @ b = map lower_char vs"
    by (simp add: map_eq_append_conv)
  then obtain a' r where r: "s = a' @ r" "fragment @ b = map lower_char r"
    by blast
  from r(2) have "\<exists>us vs. r = us @ vs \<and> fragment = map lower_char us \<and> b = map lower_char vs"
    by (simp add: append_eq_map_conv)
  then obtain m' b' where m: "r = m' @ b'" "fragment = map lower_char m'"
    by blast
  from r m have "s = a' @ m' @ b'" "map lower_char m' = fragment" by auto
  then show "occurs_ignoring_case fragment s"
    using assms by (auto simp: occurs_ignoring_case_def str_lower_def)
qed

lemma fragments_lower:
  "\<forall>f \<in> set (cloud_fragments @ cdn_fragments @ vps_fragments). str_lower f = f"
  by (simp add: cloud_fragments_def cdn_fragments_def vps_fragments_def str_lower_def
      lower_char_def ascii_uppercase_def ascii_lowercase_def latin1_uppercase_def latin1_lowercase_def)

lemma any_in_iff:
  assumes "\<forall>f \<in> set fs. str_lower f = f"
  shows "any_in fs (str_lower s) \<longleftrightarrow> (\<exists>f \<in> set fs. occurs_ignoring_case f s)"
  using assms by (auto simp: any_in_def list_ex_iff occurs_ignoring_case_iff)

lemma risk_tier_classify: "risk_tier organization provider = Some (classify organization provider)"
proof -
  let ?s = "or_empty organization @ or_empty provider"
  have cl: "(\<exists>f \<in> set cloud_fragments. occurs_ignoring_case f ?s) \<longleftrightarrow>
      any_in [''amazon'', ''aws'', ''ec2'', ''amazonaws''] (str_lower ?s) \<or>
      any_in [''google'', ''gcp'', ''cloud platform''] (str_lower ?s) \<or>
      any_in [''microsoft'', ''azure''] (str_lower ?s)"
  proof -
    have "(\<exists>f \<in> set cloud_fragments. occurs_ignoring_case f ?s) \<longleftrightarrow>
        any_in cloud_fragments (str_lower ?s)"
      using fragments_lower by (intro any_in_iff [symmetric]) auto
    moreover have "any_in cloud_fragments t \<longleftrightarrow>
        any_in [''amazon'', ''aws'', ''ec2'', ''amazonaws''] t \<or>
        any_in [''google'', ''gcp'', ''cloud platform''] t \<or>
        any_in [''microsoft'', ''azure''] t" for t
      by (simp add: cloud_fragments_def any_in_def)
    ultimately show ?thesis by simp
  qed
  have cdn: "(\<exists>f \<in> set cdn_fragments. occurs_ignoring_case f ?s) \<longleftrightarrow>
      any_in cdn_fragments (str_lower ?s)"
    using fragments_lower by (intro any_in_iff [symmetric]) auto
  have vps: "(\<exists>f \<in> set vps_fragments. occurs_ignoring_case f ?s) \<longleftrightarrow>
      any_in vps_fragments (str_lower ?s)"
    using fragments_lower by (intro any_in_iff [symmetric]) auto
  show ?thesis
    unfolding classify_def Let_def cl cdn vps
    unfolding risk_tier_def get_marker_color_def Let_def str_lower_append [symmetric]
      cdn_fragments_def vps_fragments_def tier_of_color_def
    by simp
qed

lemmas tier_eval =
  risk_tier_def get_marker_color_def any_in_def tier_of_color_def or_empty_def
  str_lower_def lower_char_def ascii_uppercase_def ascii_lowercase_def latin1_uppercase_def latin1_lowercase_def

lemma tier_amazon_comcast:
  "risk_tier (Some ''Amazon Web Services'') (Some ''Comcast Inc'') = Some Safe"
  by (simp add: tier_eval)

lemma tier_cloudflare: "risk_tier (Some ''Cloudflare, Inc.'') (Some []) = Some Low"
  by (simp add: tier_eval)

lemma tier_acme: "risk_tier (Some ''Acme Hosting LLC'') (Some []) = Some High"
  by (simp add: tier_eval)

text \<open>
  Claim C2. The tier that the code gives to an organization and an ISP (either may be
  missing) is the one of the design: the two texts are joined, and the first of the lists of
  cloud, CDN and VPS fragments of which a fragment occurs in the joined text, case ignored,
  decides between Safe, Low and Medium; High is what is left, whether or not a fragment of an
  ISP occurs. The tier is a function of the two texts alone. The three examples of the design
  come out as Safe, Low and High.
\<close>

theorem classify_first_match_wins:
  "risk_tier organization provider = Some (classify organization provider) \<and>
   risk_tier (Some ''Amazon Web Services'') (Some ''Comcast Inc'') = Some Safe \<and>
   risk_tier (Some ''Cloudflare, Inc.'') (Some []) = Some Low \<and>
   risk_tier (Some ''Acme Hosting LLC'') (Some []) = Some High"
  using risk_tier_classify tier_amazon_comcast tier_cloudflare tier_acme by simp

theorem classify_first_match_wins_witness:
  "classify (Some ''Amazon Web Services'') (Some ''Comcast Inc'') = Safe \<and>
   classify (Some ''Acme Hosting LLC'') None = High"
proof -
  have "risk_tier (Some ''Acme Hosting LLC'') None = Some High"
    by (simp add: tier_eval)
  then show ?thesis
    using classify_first_match_wins [of "Some ''Amazon Web Services''" "Some ''Comcast Inc''"]
      classify_first_match_wins [of "Some ''Acme Hosting LLC''" None]
    by simp
qed

subsection \<open>Batch geolocation\<close>

lemma map_of_mark_failed:
  "map_of (mark_failed batch results) a =
     (if a \<in> set batch \<and> map_of results a = None then Some (failed_geo a) else map_of results a)"
  unfolding mark_failed_def
  by (induction batch arbitrary: results) (auto simp: update_conv')

lemma distinct_mark_failed:
  "distinct (map fst results) \<Longrightarrow> distinct (map fst (mark_failed batch results))"
  unfolding mark_failed_def
  by (induction batch arbitrary: results) (auto simp: distinct_update)

lemma distinct_process_items:
  "distinct (map fst results) \<Longrightarrow> distinct (map fst (fst (process_items data results)))"
  by (induction data results rule: process_items.induct) (auto simp: distinct_update)

lemma process_items_no_raise:
  "list_all (\<lambda>j. query_of j \<noteq> None) data \<Longrightarrow> snd (process_items data results) = False"
  by (induction data results rule: process_items.induct) (auto simp: query_of_def)

lemma process_items_other:
  "Some a \<notin> set (map query_of data) \<Longrightarrow> list_all (\<lambda>j. query_of j \<noteq> None) data \<Longrightarrow>
   map_of (fst (process_items data results)) a = map_of results a"
  by (induction data results rule: process_items.induct)
     (auto simp: query_of_def update_conv' or_empty_def)

lemma process_items_served:
  "Some a \<in> set (map query_of data) \<Longrightarrow> list_all (\<lambda>j. query_of j \<noteq> None) data \<Longrightarrow>
   \<exists>item. JObject item \<in> set data \<and> j_query item = Some a \<and>
          map_of (fst (process_items data results)) a = Some (geo_of_item item)"
proof (induction data results rule: process_items.induct)
  case (1 results)
  then show ?case by simp
next
  case (2 items results)
  then show ?case by (simp add: query_of_def)
next
  case (3 item items results)
  show ?case
  proof (cases "Some a \<in> set (map query_of items)")
    case True
    then show ?thesis using 3 by auto
  next
    case False
    then have q: "j_query item = Some a" using "3.prems" by (auto simp: query_of_def)
    have "map_of (fst (process_items (JObject item # items) results)) a =
        map_of (AList.update (or_empty (j_query item)) (geo_of_item item) results) a"
      using False "3.prems" by (simp add: process_items_other)
    then show ?thesis using q by (auto simp: update_conv' or_empty_def)
  qed
qed

lemma answers_batchD:
  assumes "answers_batch r batch"
  shows "\<exists>status_code body. r = Response status_code body (Some (data_of r)) \<and>
           \<not> raise_for_status status_code"
    and "set (map query_of (data_of r)) = Some ` set batch"
    and "list_all (\<lambda>j. query_of j \<noteq> None) (data_of r)"
    and "\<not> query_fails r"
proof -
  from assms obtain c b d where r: "r = Response c b (Some d)" "\<not> raise_for_status c"
      "set (map query_of d) = Some ` set batch"
    by (auto simp: answers_batch_def split: reply.splits option.splits)
  then show "\<exists>status_code body. r = Response status_code body (Some (data_of r)) \<and>
           \<not> raise_for_status status_code"
    by (simp add: data_of_def)
  show "set (map query_of (data_of r)) = Some ` set batch" using r by (simp add: data_of_def)
  then have "query_of j \<noteq> None" if "j \<in> set (data_of r)" for j
  proof -
    from that have "query_of j \<in> set (map query_of (data_of r))" by simp
    with \<open>set (map query_of (data_of r)) = Some ` set batch\<close> show ?thesis by auto
  qed
  then show "list_all (\<lambda>j. query_of j \<noteq> None) (data_of r)"
    by (simp add: list_all_iff)
  show "\<not> query_fails r" using r by (simp add: query_fails_def)
qed

lemma batch_step_answered:
  assumes "answers_batch (post batch_idx batch) batch"
  shows "fst (batch_step post n (results, trace) (batch_idx, batch)) =
           fst (process_items (data_of (post batch_idx batch)) results)"
proof -
  from answers_batchD(1) [OF assms] obtain c b where
    r: "post batch_idx batch = Response c b (Some (data_of (post batch_idx batch)))"
      "\<not> raise_for_status c" by blast
  define d where "d = data_of (post batch_idx batch)"
  have nr: "snd (process_items d results) = False"
    unfolding d_def using answers_batchD(3) [OF assms] by (rule process_items_no_raise)
  obtain res raised where p: "process_items d results = (res, raised)"
    by (cases "process_items d results")
  with nr have p': "process_items d results = (res, False)" by simp
  have r': "post batch_idx batch = Response c b (Some d)" using r(1) by (simp add: d_def)
  show ?thesis
    unfolding d_def [symmetric] batch_step_def by (simp add: r' r(2) p')
qed

lemma batch_step_failed:
  assumes "query_fails (post batch_idx batch)"
  shows "batch_step post n (results, trace) (batch_idx, batch) =
           (mark_failed batch results, trace @ [Request batch_idx])"
  using assms unfolding batch_step_def query_fails_def
  by (auto split: reply.splits option.splits)

lemma dom_process_items:
  assumes "list_all (\<lambda>j. query_of j \<noteq> None) data"
  shows "dom (map_of (fst (process_items data results))) =
           dom (map_of results) \<union> {a. Some a \<in> set (map query_of data)}"
  using assms
  by (induction data results rule: process_items.induct)
     (auto simp: query_of_def update_conv' or_empty_def)

lemma batch_step_spec:
  assumes ok: "answers_batch (post batch_idx batch) batch \<or> query_fails (post batch_idx batch)"
    and fresh: "set batch \<inter> dom (map_of results) = {}"
    and d: "distinct (map fst results)"
  shows "dom (map_of (fst (batch_step post n (results, trace) (batch_idx, batch)))) =
           dom (map_of results) \<union> set batch"
    and "\<forall>a. a \<notin> set batch \<longrightarrow>
           map_of (fst (batch_step post n (results, trace) (batch_idx, batch))) a = map_of results a"
    and "served post (fst (batch_step post n (results, trace) (batch_idx, batch))) (batch_idx, batch)"
    and "distinct (map fst (fst (batch_step post n (results, trace) (batch_idx, batch))))"
proof -
  let ?r = "post batch_idx batch"
  let ?R = "fst (batch_step post n (results, trace) (batch_idx, batch))"
  from ok have "dom (map_of ?R) = dom (map_of results) \<union> set batch \<and>
      (\<forall>a. a \<notin> set batch \<longrightarrow> map_of ?R a = map_of results a) \<and>
      served post ?R (batch_idx, batch) \<and> distinct (map fst ?R)"
  proof
    assume a: "answers_batch ?r batch"
    have R: "?R = fst (process_items (data_of ?r) results)" using a by (rule batch_step_answered)
    note q = answers_batchD [OF a]
    have "dom (map_of ?R) = dom (map_of results) \<union> set batch"
      unfolding R using dom_process_items [OF q(3)] q(2) by auto
    moreover have "map_of ?R x = map_of results x" if "x \<notin> set batch" for x
      unfolding R using that q(2) q(3) by (intro process_items_other) auto
    moreover have "served post ?R (batch_idx, batch)"
      unfolding served_def R using q(2) q(3) q(4) process_items_served [of _ "data_of ?r" results]
      by auto
    moreover have "distinct (map fst ?R)" unfolding R using d by (rule distinct_process_items)
    ultimately show ?thesis by blast
  next
    assume f: "query_fails ?r"
    have R: "?R = mark_failed batch results" using f by (simp add: batch_step_failed)
    have na: "\<not> answers_batch ?r batch" using f answers_batchD(4) by blast
    have fr: "map_of results x = None" if "x \<in> set batch" for x using that fresh by auto
    have "dom (map_of ?R) = dom (map_of results) \<union> set batch"
      unfolding R by (auto simp: map_of_mark_failed dom_def split: if_splits)
    moreover have "map_of ?R x = map_of results x" if "x \<notin> set batch" for x
      unfolding R using that by (simp add: map_of_mark_failed)
    moreover have "served post ?R (batch_idx, batch)"
      unfolding served_def R using na fr by (simp add: map_of_mark_failed)
    moreover have "distinct (map fst ?R)" unfolding R using d by (rule distinct_mark_failed)
    ultimately show ?thesis by blast
  qed
  then show "dom (map_of ?R) = dom (map_of results) \<union> set batch"
    and "\<forall>a. a \<notin> set batch \<longrightarrow> map_of ?R a = map_of results a"
    and "served post ?R (batch_idx, batch)"
    and "distinct (map fst ?R)"
    by blast+
qed


lemma foldl_batches:
  assumes "\<forall>turn \<in> set turns. answers_batch (post (fst turn) (snd turn)) (snd turn) \<or>
             query_fails (post (fst turn) (snd turn))"
    and "distinct (concat (map snd turns))"
    and "set (concat (map snd turns)) \<inter> dom (map_of results) = {}"
    and "distinct (map fst results)"
  shows "dom (map_of (fst (foldl (batch_step post n) (results, trace) turns))) =
           dom (map_of results) \<union> set (concat (map snd turns)) \<and>
         (\<forall>a. a \<notin> set (concat (map snd turns)) \<longrightarrow>
            map_of (fst (foldl (batch_step post n) (results, trace) turns)) a = map_of results a) \<and>
         (\<forall>turn \<in> set turns. served post (fst (foldl (batch_step post n) (results, trace) turns)) turn) \<and>
         distinct (map fst (fst (foldl (batch_step post n) (results, trace) turns)))"
  using assms
proof (induction turns arbitrary: results trace)
  case Nil
  then show ?case by simp
next
  case (Cons turn turns)
  obtain batch_idx batch where turn: "turn = (batch_idx, batch)" by (cases turn)
  obtain results1 trace1 where step: "batch_step post n (results, trace) (batch_idx, batch) = (results1, trace1)"
    by (cases "batch_step post n (results, trace) (batch_idx, batch)")
  have ok: "answers_batch (post batch_idx batch) batch \<or> query_fails (post batch_idx batch)"
    using Cons.prems(1) turn by simp
  have fresh: "set batch \<inter> dom (map_of results) = {}"
    using Cons.prems(3) turn by auto
  note spec = batch_step_spec [where post = post and batch_idx = batch_idx and batch = batch
      and results = results and n = n and trace = trace, OF ok fresh Cons.prems(4),
      unfolded step fst_conv]
  let ?R = "fst (foldl (batch_step post n) (results1, trace1) turns)"
  have rest_ok: "\<forall>t \<in> set turns. answers_batch (post (fst t) (snd t)) (snd t) \<or>
             query_fails (post (fst t) (snd t))"
    using Cons.prems(1) by simp
  have rest_d: "distinct (concat (map snd turns))" using Cons.prems(2) by simp
  have disj: "set batch \<inter> set (concat (map snd turns)) = {}"
    using Cons.prems(2) turn by auto
  have rest_fresh: "set (concat (map snd turns)) \<inter> dom (map_of results1) = {}"
    using Cons.prems(3) disj spec(1) by auto
  note IH = Cons.IH [OF rest_ok rest_d rest_fresh spec(4), of trace1]
  have fold: "foldl (batch_step post n) (results, trace) (turn # turns) =
      foldl (batch_step post n) (results1, trace1) turns"
    by (simp add: turn step)
  from IH have IH1: "dom (map_of ?R) = dom (map_of results1) \<union> set (concat (map snd turns))"
    and IH2: "\<And>a. a \<notin> set (concat (map snd turns)) \<Longrightarrow> map_of ?R a = map_of results1 a"
    and IH3: "\<forall>t \<in> set turns. served post ?R t"
    and IH4: "distinct (map fst ?R)"
    by blast+
  have keep: "map_of ?R a = map_of results1 a" if "a \<in> set batch" for a
  proof -
    from that disj have "a \<notin> set (concat (map snd turns))" by blast
    then show ?thesis by (rule IH2)
  qed
  have s1: "served post ?R (batch_idx, batch)"
    using spec(3) keep unfolding served_def by auto
  have c: "set (concat (map snd (turn # turns))) = set batch \<union> set (concat (map snd turns))"
    by (simp add: turn)
  have d1: "dom (map_of ?R) = dom (map_of results) \<union> set (concat (map snd (turn # turns)))"
    unfolding c IH1 spec(1) by blast
  have o1: "map_of ?R a = map_of results a" if "a \<notin> set (concat (map snd (turn # turns)))" for a
  proof -
    from that c have "a \<notin> set batch" "a \<notin> set (concat (map snd turns))" by blast+
    then show ?thesis using IH2 spec(2) by simp
  qed
  have s2: "\<forall>t \<in> set (turn # turns). served post ?R t"
    using s1 IH3 turn by simp
  show ?case
    unfolding fold using d1 o1 s2 IH4 by blast
qed

lemma concat_batches_take:
  "concat (map (\<lambda>k. take n (drop (k * n) xs)) [0..<m]) = take (m * n) xs"
proof (induction m)
  case 0
  then show ?case by simp
next
  case (Suc m)
  have "take (m * n + n) xs = take (m * n) xs @ take n (drop (m * n) xs)"
    by (rule take_add)
  moreover have "Suc m * n = m * n + n" by simp
  ultimately have "take (Suc m * n) xs = take (m * n) xs @ take n (drop (m * n) xs)"
    by (simp only:)
  then show ?case using Suc by (simp del: mult_Suc)
qed

lemma concat_batches_of: "concat (batches_of BATCH_SIZE xs) = xs"
proof -
  have pos: "0 < BATCH_SIZE" by (simp add: BATCH_SIZE_def)
  have "(length xs + BATCH_SIZE - 1) div BATCH_SIZE * BATCH_SIZE +
      (length xs + BATCH_SIZE - 1) mod BATCH_SIZE = length xs + BATCH_SIZE - 1"
    by simp
  moreover have "(length xs + BATCH_SIZE - 1) mod BATCH_SIZE < BATCH_SIZE"
    using pos by simp
  ultimately have "length xs \<le> (length xs + BATCH_SIZE - 1) div BATCH_SIZE * BATCH_SIZE"
    using pos by linarith
  then show ?thesis
    by (simp add: batches_of_def range_step_def comp_def concat_batches_take)
qed

lemma length_batches_of: "length (batches_of n xs) = (length xs + n - 1) div n"
  by (simp add: batches_of_def range_step_def)

lemma enumerate_turns:
  "turn \<in> set (List.enumerate 0 bs) \<longleftrightarrow> fst turn < length bs \<and> snd turn = bs ! fst turn"
  by (cases turn) (auto simp: in_set_enumerate_eq)


lemma process_items_raised:
  "snd (process_items data results) = (\<not> list_all (\<lambda>j. j \<noteq> JOther) data)"
  by (induction data results rule: process_items.induct) auto

lemma batch_step_trace:
  "snd (batch_step post n (results, trace) turn) = trace @ events_of post n turn"
proof -
  obtain batch_idx batch where turn: "turn = (batch_idx, batch)" by (cases turn)
  show ?thesis
  proof (cases "post batch_idx batch")
    case ReqTimeout
    then show ?thesis by (simp add: turn batch_step_def events_of_def completes_def)
  next
    case ReqException
    then show ?thesis by (simp add: turn batch_step_def events_of_def completes_def)
  next
    case (Response status_code body json)
    show ?thesis
    proof (cases json)
      case None
      then show ?thesis
        using Response by (simp add: turn batch_step_def events_of_def completes_def)
    next
      case (Some data)
      obtain res raised where p: "process_items data results = (res, raised)"
        by (cases "process_items data results")
      then have "raised = (\<not> list_all (\<lambda>j. j \<noteq> JOther) data)"
        using process_items_raised [of data results] by simp
      then show ?thesis
        using Response Some p by (simp add: turn batch_step_def events_of_def completes_def)
    qed
  qed
qed

lemma foldl_batches_trace:
  "snd (foldl (batch_step post n) (results, trace) turns) =
     trace @ concat (map (events_of post n) turns)"
proof (induction turns arbitrary: results trace)
  case Nil
  then show ?case by simp
next
  case (Cons turn turns)
  obtain results1 trace1 where step: "batch_step post n (results, trace) turn = (results1, trace1)"
    by (cases "batch_step post n (results, trace) turn")
  then have "trace1 = trace @ events_of post n turn"
    using batch_step_trace [of post n results trace turn] by simp
  then show ?case
    using Cons.IH [of results1 trace1] step by simp
qed

lemma locate_batch_trace:
  "snd (locate_batch dedup post ips) =
     concat (map (events_of post (length (batches_of BATCH_SIZE (dedup ips))))
       (List.enumerate 0 (batches_of BATCH_SIZE (dedup ips))))"
  by (simp add: locate_batch_def Let_def foldl_batches_trace)

lemma no_sleep_when_failing:
  "concat (map (events_of (\<lambda>batch_idx batch. ReqTimeout) n) (List.enumerate k bs)) =
     map Request [k..<k + length bs]"
proof (induction bs arbitrary: k)
  case Nil
  then show ?case by simp
next
  case (Cons b bs)
  have "[k..<k + length (b # bs)] = k # [Suc k..<Suc k + length bs]"
    by (simp add: upt_rec)
  then show ?case
    using Cons [of "Suc k"] by (simp add: events_of_def completes_def)
qed

text \<open>
  Claim C6 says that the delay is kept between any two consecutive batch submissions, also
  after a batch whose query failed. In the code the sleep is the last statement inside the
  \<^verbatim>\<open>try\<close> block, so an exception skips it: the trace of a run is, batch by batch, the
  request followed by a sleep only if the \<^verbatim>\<open>try\<close> block ran to its end and the batch
  was not the last. When the queries time out, the batches are submitted one right after the
  other, however many there are: for 101 addresses, two requests and no sleep between them.
  (No sleep precedes the first request or follows the last one: that part holds.)
\<close>

theorem no_delay_after_failed_batch:
  "snd (locate_batch dedup post ips) =
     concat (map (events_of post (length (batches_of BATCH_SIZE (dedup ips))))
       (List.enumerate 0 (batches_of BATCH_SIZE (dedup ips)))) \<and>
   snd (locate_batch dedup (\<lambda>batch_idx batch. ReqTimeout) ips) =
     map Request [0..<length (batches_of BATCH_SIZE (dedup ips))] \<and>
   length (batches_of BATCH_SIZE (dedup ips)) = (length (dedup ips) + 99) div 100"
  using locate_batch_trace [of dedup post ips]
    locate_batch_trace [of dedup "\<lambda>batch_idx batch. ReqTimeout" ips]
    no_sleep_when_failing [of _ 0]
  by (simp add: length_batches_of BATCH_SIZE_def)


lemma locate_batch_spec:
  assumes ls: "is_list_set dedup"
    and ok: "\<forall>batch_idx < length (batches_of BATCH_SIZE (dedup ips)).
               answers_batch (post batch_idx (batches_of BATCH_SIZE (dedup ips) ! batch_idx))
                 (batches_of BATCH_SIZE (dedup ips) ! batch_idx) \<or>
               query_fails (post batch_idx (batches_of BATCH_SIZE (dedup ips) ! batch_idx))"
  shows "set (map fst (fst (locate_batch dedup post ips))) = set ips"
    and "distinct (map fst (fst (locate_batch dedup post ips)))"
    and "\<forall>batch_idx < length (batches_of BATCH_SIZE (dedup ips)).
           served post (fst (locate_batch dedup post ips))
             (batch_idx, batches_of BATCH_SIZE (dedup ips) ! batch_idx)"
proof -
  let ?bs = "batches_of BATCH_SIZE (dedup ips)"
  let ?turns = "List.enumerate 0 ?bs"
  have R: "fst (locate_batch dedup post ips) = fst (foldl (batch_step post (length ?bs)) ([], []) ?turns)"
    by (simp add: locate_batch_def Let_def)
  have u: "distinct (dedup ips)" "set (dedup ips) = set ips"
    using ls by (simp_all add: is_list_set_def)
  have snd_turns: "map snd ?turns = ?bs" by (simp add: map_snd_enumerate)
  have c: "concat (map snd ?turns) = dedup ips"
    by (simp add: snd_turns concat_batches_of)
  have a1: "\<forall>turn \<in> set ?turns. answers_batch (post (fst turn) (snd turn)) (snd turn) \<or>
             query_fails (post (fst turn) (snd turn))"
    using ok by (auto simp: enumerate_turns)
  have a2: "distinct (concat (map snd ?turns))" using u(1) c by simp
  have a3: "set (concat (map snd ?turns)) \<inter> dom (map_of ([] :: (string \<times> GeoData) list)) = {}" by simp
  have a4: "distinct (map fst ([] :: (string \<times> GeoData) list))" by simp
  note f = foldl_batches [OF a1 a2 a3 a4, of "length ?bs" "[]", folded R, unfolded c]
  from f have "dom (map_of (fst (locate_batch dedup post ips))) = set ips"
    using u(2) by simp
  then show "set (map fst (fst (locate_batch dedup post ips))) = set ips"
    by (simp add: dom_map_of_conv_image_fst)
  show "distinct (map fst (fst (locate_batch dedup post ips)))" using f by blast
  from f have "\<forall>turn \<in> set ?turns. served post (fst (locate_batch dedup post ips)) turn"
    by blast
  then show "\<forall>batch_idx < length ?bs.
           served post (fst (locate_batch dedup post ips)) (batch_idx, ?bs ! batch_idx)"
    by (simp add: enumerate_turns)
qed

lemma batches_of_150:
  assumes "length xs = 150"
  shows "batches_of BATCH_SIZE xs = [take 100 xs, drop 100 xs]"
proof -
  have "[0..<(2::nat)] = [0, 1]" by (simp add: upt_rec numeral_2_eq_2)
  then show ?thesis
    using assms by (simp add: batches_of_def range_step_def BATCH_SIZE_def)
qed


text \<open>
  Claim C4, as stated, fails: the table has a key for an address only if the handler or an
  item of the answer writes one. A provider that answers a batch with an empty list, and no
  error, leaves the addresses of the batch out (the caller makes up for it with
  \<^verbatim>\<open>geo_results.get(ip, GeoData(ip=ip, success=False))\<close>).
\<close>

theorem locate_batch_total_counterexample:
  "is_list_set (remdups :: string list \<Rightarrow> string list) \<and>
   fst (locate_batch remdups (\<lambda>batch_idx batch. Response 200 ''[]'' (Some []))
          [''203.0.113.5'']) = [] \<and>
   set (map fst (fst (locate_batch remdups (\<lambda>batch_idx batch. Response 200 ''[]'' (Some []))
          [''203.0.113.5'']))) \<noteq> set [''203.0.113.5'']"
proof -
  have "batches_of BATCH_SIZE [''203.0.113.5''] = [[''203.0.113.5'']]"
    by (simp add: batches_of_def range_step_def BATCH_SIZE_def)
  then have "fst (locate_batch remdups (\<lambda>batch_idx batch. Response 200 ''[]'' (Some []))
          [''203.0.113.5'']) = []"
    by (simp add: locate_batch_def batch_step_def raise_for_status_def)
  then show ?thesis by (simp add: is_list_set_def)
qed

text \<open>
  Claim C4, amended. The addresses are deduplicated first. If every batch either fails at
  its query or is answered with items for exactly its own addresses, then the keys of the
  table are exactly the deduplicated addresses, each once; every address of a batch whose
  query failed has \<^verbatim>\<open>success=False\<close> and no other field; every address of an answered
  batch has the record of an item the provider sent for it. For 150 addresses the batches are
  the first 100 and the last 50, and the table has 150 keys: when the second query fails,
  the last 50 are marked failed and the first 100 are as the provider answered.
\<close>

theorem locate_batch_total:
  assumes "is_list_set dedup"
    and "batches = batches_of BATCH_SIZE (dedup ips)"
    and "\<forall>batch_idx < length batches.
           answers_batch (post batch_idx (batches ! batch_idx)) (batches ! batch_idx) \<or>
           query_fails (post batch_idx (batches ! batch_idx))"
    and "results = fst (locate_batch dedup post ips)"
  shows "set (map fst results) = set ips \<and>
         distinct (map fst results) \<and>
         (\<forall>batch_idx < length batches.
            (query_fails (post batch_idx (batches ! batch_idx)) \<longrightarrow>
               (\<forall>a \<in> set (batches ! batch_idx). map_of results a = Some (failed_geo a))) \<and>
            (answers_batch (post batch_idx (batches ! batch_idx)) (batches ! batch_idx) \<longrightarrow>
               (\<forall>a \<in> set (batches ! batch_idx).
                  \<exists>item. JObject item \<in> set (data_of (post batch_idx (batches ! batch_idx))) \<and>
                         j_query item = Some a \<and> map_of results a = Some (geo_of_item item)))) \<and>
         (length (dedup ips) = 150 \<longrightarrow>
            batches = [take 100 (dedup ips), drop 100 (dedup ips)] \<and> length results = 150)"
proof -
  note spec = locate_batch_spec [where dedup = dedup and ips = ips and post = post,
      OF assms(1) assms(3) [unfolded assms(2)], folded assms(2) assms(4)]
  have u: "distinct (dedup ips)" "set (dedup ips) = set ips"
    using assms(1) by (simp_all add: is_list_set_def)
  have "length results = length (dedup ips)"
  proof -
    have "card (set (map fst results)) = length (map fst results)"
      using spec(2) by (rule distinct_card)
    then have "length (map fst results) = card (set (map fst results))" by simp
    also have "\<dots> = card (set (dedup ips))" using spec(1) u(2) by simp
    also have "\<dots> = length (dedup ips)" using u(1) by (simp add: distinct_card)
    finally show ?thesis by simp
  qed
  then have "length (dedup ips) = 150 \<longrightarrow>
      batches = [take 100 (dedup ips), drop 100 (dedup ips)] \<and> length results = 150"
    using batches_of_150 [of "dedup ips"] assms(2) by auto
  then show ?thesis
    using spec unfolding served_def by simp
qed

theorem locate_batch_total_witness:
  "is_list_set (remdups :: string list \<Rightarrow> string list) \<and>
   query_fails (ReqTimeout :: geo_json list reply) \<and>
   set (map fst (fst (locate_batch remdups (\<lambda>batch_idx batch. ReqTimeout)
          [''8.8.8.8'', ''1.1.1.1'', ''8.8.8.8'']))) = {''8.8.8.8'', ''1.1.1.1''} \<and>
   map_of (fst (locate_batch remdups (\<lambda>batch_idx batch. ReqTimeout)
          [''8.8.8.8'', ''1.1.1.1'', ''8.8.8.8''])) ''1.1.1.1'' = Some (failed_geo ''1.1.1.1'') \<and>
   answers_batch (Response 200 ''[...]'' (Some [JObject example_item])) [''8.8.8.8''] \<and>
   map_of (fst (locate_batch remdups
          (\<lambda>batch_idx batch. Response 200 ''[...]'' (Some [JObject example_item]))
          [''8.8.8.8'', ''8.8.8.8''])) ''8.8.8.8'' = Some (geo_of_item example_item) \<and>
   success (geo_of_item example_item)"
proof -
  let ?ips = "[''8.8.8.8'', ''1.1.1.1'', ''8.8.8.8'']"
  let ?post = "\<lambda>(batch_idx::nat) (batch::string list). (ReqTimeout :: geo_json list reply)"
  let ?good = "\<lambda>(batch_idx::nat) (batch::string list).
      Response 200 ''[...]'' (Some [JObject example_item])"
  have ls: "is_list_set (remdups :: string list \<Rightarrow> string list)"
    by (simp add: is_list_set_def)
  have qf: "query_fails (ReqTimeout :: geo_json list reply)" by (simp add: query_fails_def)
  have b: "batches_of BATCH_SIZE (remdups ?ips) = [[''1.1.1.1'', ''8.8.8.8'']]"
    by (simp add: batches_of_def range_step_def BATCH_SIZE_def)
  have ok: "\<forall>batch_idx < length [[''1.1.1.1'', ''8.8.8.8'']].
           answers_batch (?post batch_idx ([[''1.1.1.1'', ''8.8.8.8'']] ! batch_idx))
             ([[''1.1.1.1'', ''8.8.8.8'']] ! batch_idx) \<or>
           query_fails (?post batch_idx ([[''1.1.1.1'', ''8.8.8.8'']] ! batch_idx))"
    using qf by simp
  from locate_batch_total [where dedup = remdups and ips = ?ips and post = ?post,
      OF ls b [symmetric] ok refl]
  have failed: "set (map fst (fst (locate_batch remdups ?post ?ips))) = {''8.8.8.8'', ''1.1.1.1''} \<and>
      map_of (fst (locate_batch remdups ?post ?ips)) ''1.1.1.1'' = Some (failed_geo ''1.1.1.1'')"
    using qf by auto
  have ab: "answers_batch (Response 200 ''[...]'' (Some [JObject example_item])) [''8.8.8.8'']"
    by (simp add: answers_batch_def raise_for_status_def query_of_def example_item_def)
  have b': "batches_of BATCH_SIZE (remdups [''8.8.8.8'', ''8.8.8.8'']) = [[''8.8.8.8'']]"
    by (simp add: batches_of_def range_step_def BATCH_SIZE_def)
  have ok': "\<forall>batch_idx < length [[''8.8.8.8'']].
           answers_batch (?good batch_idx ([[''8.8.8.8'']] ! batch_idx)) ([[''8.8.8.8'']] ! batch_idx) \<or>
           query_fails (?good batch_idx ([[''8.8.8.8'']] ! batch_idx))"
    using ab by simp
  note T = locate_batch_total [where dedup = remdups and ips = "[''8.8.8.8'', ''8.8.8.8'']"
      and post = ?good, OF ls b' [symmetric] ok' refl]
  note T3 = T [THEN conjunct2, THEN conjunct2, THEN conjunct1, rule_format, of 0,
      THEN conjunct2, rule_format]
  have "\<exists>item. JObject item \<in> set (data_of (?good 0 ([[''8.8.8.8'']] ! 0))) \<and>
      j_query item = Some ''8.8.8.8'' \<and>
      map_of (fst (locate_batch remdups ?good [''8.8.8.8'', ''8.8.8.8''])) ''8.8.8.8'' =
        Some (geo_of_item item)"
    using ab by (intro T3) simp_all
  then have answered: "map_of (fst (locate_batch remdups ?good [''8.8.8.8'', ''8.8.8.8''])) ''8.8.8.8'' =
      Some (geo_of_item example_item)"
    by (auto simp: data_of_def)
  have "success (geo_of_item example_item)"
    by (simp add: geo_of_item_def example_item_def)
  then show ?thesis using ls qf failed ab answered by simp
qed

subsection \<open>The orchestrator\<close>

lemma finite_crtsh_loop: "finite (fst (crtsh_loop get domain attempts))"
  by (induction attempts)
     (auto split: reply.splits option.splits prod.splits simp: clean_all_def)

lemma finite_enumerate_ct: "finite (enumerate_ct nw domain)"
proof -
  have "finite (query_certspotter r domain)" for r
    by (auto simp: query_certspotter_def clean_all_def split: reply.splits option.splits)
  moreover have "finite (query_hackertarget r domain)" for r
    by (auto simp: query_hackertarget_def clean_all_def split: reply.splits option.splits)
  moreover have "finite (fst (query_crtsh get domain))" for get
    by (simp add: query_crtsh_def finite_crtsh_loop)
  ultimately show ?thesis
    by (simp add: enumerate_ct_def Let_def)
qed

lemma no_alive_filter:
  "list_all (\<lambda>(sub, result). \<not> is_alive result) dns_results \<Longrightarrow>
   filter (\<lambda>(sub, result). alive result) dns_results = []"
  by (induction dns_results) (auto simp: alive_def)

lemma run_enumerate_empty:
  "enumerate_ct (net w) (str_strip (str_lower (target a))) = {} \<Longrightarrow>
   run_reconnaissance w a = (Inr None, [Enumerate])"
  by (simp add: run_reconnaissance_def Let_def)

lemma run_no_alive:
  assumes "enumerate_ct (net w) (str_strip (str_lower (target a))) \<noteq> {}"
    and "resolve_bulk (threads a) (workers w)
           (sorted_list_of_set (insert (str_strip (str_lower (target a)))
              (enumerate_ct (net w) (str_strip (str_lower (target a)))))) = Inr dns_results"
    and "list_all (\<lambda>(sub, result). \<not> is_alive result) dns_results"
  shows "run_reconnaissance w a = (Inr None, [Enumerate, Resolve])"
  using assms by (simp add: run_reconnaissance_def Let_def no_alive_filter)

lemma run_none_stages:
  "fst (run_reconnaissance w a) = Inr None \<Longrightarrow>
   snd (run_reconnaissance w a) = [Enumerate] \<or> snd (run_reconnaissance w a) = [Enumerate, Resolve]"
  by (auto simp: run_reconnaissance_def Let_def split: if_splits sum.splits)

lemma main_outcome:
  "main w a =
     (case fst (run_reconnaissance w a) of
        Inr (Some df) \<Rightarrow> Returned
      | Inr None \<Rightarrow> SystemExit 1
      | Inl e \<Rightarrow> Raised e, snd (run_reconnaissance w a))"
  by (cases "run_reconnaissance w a") (auto simp: main_def split: sum.splits option.splits)

lemma example_target: "str_strip (str_lower (target example_args)) = ''example.com''"
  by (simp add: example_args_def str_strip_def isspace_def str_lower_def lower_char_def
      ascii_uppercase_def ascii_lowercase_def latin1_uppercase_def latin1_lowercase_def)

lemma scenario_enumerate:
  "enumerate_ct scenario_net ''example.com'' = {''api.example.com'', ''old.example.com''}"
proof -
  have "query_crtsh (crtsh scenario_net) ''example.com'' =
      ({''api.example.com'', ''old.example.com''}, [Request 0])"
    apply (simp add: scenario_net_def query_crtsh_def MAX_RETRIES_def upt_rec raise_for_status_def
        str_strip_def isspace_def clean_all_def crtsh_names_def or_empty_def
        List.map_filter_simps)
    apply (simp add: clean_eval)
    done
  then show ?thesis
    by (simp add: enumerate_ct_def Let_def query_certspotter_def query_hackertarget_def
        scenario_net_def)
qed

lemma silent_enumerate: "enumerate_ct silent_net ''example.com'' = {}"
  by (simp add: enumerate_ct_def Let_def query_certspotter_def query_hackertarget_def
      silent_net_def query_crtsh_def MAX_RETRIES_def upt_rec)

lemma scenario_names:
  "sorted_list_of_set (insert ''example.com'' {''api.example.com'', ''old.example.com''}) =
     [''api.example.com'', ''example.com'', ''old.example.com'']"
  by (simp add: sorted_list_of_set_insert_remove)

lemmas resolve_eval =
  resolve_bulk_def collect_def future_result_def resolve_single_def enumerate_simps

lemma dead_resolve:
  "resolve_bulk 50 (workers dead_world) [''api.example.com'', ''example.com'', ''old.example.com''] =
     Inr [(''old.example.com'', \<lparr>subdomain = ''old.example.com'', ip = None, is_alive = False,
             cname = None, error = Some ''NXDOMAIN''\<rparr>),
          (''example.com'', \<lparr>subdomain = ''example.com'', ip = None, is_alive = False,
             cname = None, error = Some ''NXDOMAIN''\<rparr>),
          (''api.example.com'', \<lparr>subdomain = ''api.example.com'', ip = None, is_alive = False,
             cname = None, error = Some ''NXDOMAIN''\<rparr>)]"
  by (simp add: dead_world_def resolve_eval)

lemma scenario_resolve:
  "resolve_bulk 50 (workers scenario_world) [''api.example.com'', ''example.com'', ''old.example.com''] =
     Inr [(''old.example.com'', \<lparr>subdomain = ''old.example.com'', ip = None, is_alive = False,
             cname = None, error = Some ''NXDOMAIN''\<rparr>),
          (''example.com'', \<lparr>subdomain = ''example.com'', ip = Some ''203.0.113.7'', is_alive = True,
             cname = None, error = None\<rparr>),
          (''api.example.com'', \<lparr>subdomain = ''api.example.com'', ip = Some ''203.0.113.5'',
             is_alive = True, cname = None, error = None\<rparr>)]"
  by (simp add: scenario_world_def scenario_dns_def resolve_eval)

text \<open>
  Claim C9. When the enumeration yields nothing, \<^verbatim>\<open>run_reconnaissance\<close> returns
  \<^verbatim>\<open>None\<close> right after it; when names were found and resolved but no record is alive, it
  returns \<^verbatim>\<open>None\<close> right after the resolution. Whenever it returns \<^verbatim>\<open>None\<close>, neither
  the geolocation nor the aggregation nor the summary, the map or the export has been
  called, and \<^verbatim>\<open>main\<close> leaves with \<^verbatim>\<open>sys.exit(1)\<close>; it raises exactly when the run
  raised, so the two outcomes are told apart.
\<close>

theorem pipeline_empty:
  assumes "tgt = str_strip (str_lower (target a))"
  shows "(enumerate_ct (net w) tgt = {} \<longrightarrow> run_reconnaissance w a = (Inr None, [Enumerate])) \<and>
         (\<forall>dns_results.
            enumerate_ct (net w) tgt \<noteq> {} \<and>
            resolve_bulk (threads a) (workers w)
              (sorted_list_of_set (insert tgt (enumerate_ct (net w) tgt))) = Inr dns_results \<and>
            list_all (\<lambda>(sub, result). \<not> is_alive result) dns_results \<longrightarrow>
            run_reconnaissance w a = (Inr None, [Enumerate, Resolve])) \<and>
         (fst (run_reconnaissance w a) = Inr None \<longrightarrow>
            main w a = (SystemExit 1, snd (run_reconnaissance w a)) \<and>
            set (snd (run_reconnaissance w a)) \<inter>
              {Geolocate, Aggregate, Summary, RenderMap, ExportCsv} = {}) \<and>
         (\<forall>e. fst (main w a) = Raised e \<longleftrightarrow> fst (run_reconnaissance w a) = Inl e) \<and>
         (fst (main w a) = SystemExit 1 \<longleftrightarrow> fst (run_reconnaissance w a) = Inr None)"
proof -
  have 1: "enumerate_ct (net w) tgt = {} \<longrightarrow> run_reconnaissance w a = (Inr None, [Enumerate])"
    unfolding assms using run_enumerate_empty by blast
  have 2: "\<forall>dns_results.
            enumerate_ct (net w) tgt \<noteq> {} \<and>
            resolve_bulk (threads a) (workers w)
              (sorted_list_of_set (insert tgt (enumerate_ct (net w) tgt))) = Inr dns_results \<and>
            list_all (\<lambda>(sub, result). \<not> is_alive result) dns_results \<longrightarrow>
            run_reconnaissance w a = (Inr None, [Enumerate, Resolve])"
    unfolding assms using run_no_alive by blast
  have 3: "fst (run_reconnaissance w a) = Inr None \<longrightarrow>
            main w a = (SystemExit 1, snd (run_reconnaissance w a)) \<and>
            set (snd (run_reconnaissance w a)) \<inter>
              {Geolocate, Aggregate, Summary, RenderMap, ExportCsv} = {}"
    using run_none_stages [of w a] by (auto simp: main_outcome)
  have 4: "\<forall>e. fst (main w a) = Raised e \<longleftrightarrow> fst (run_reconnaissance w a) = Inl e"
    by (auto simp: main_outcome split: sum.splits option.splits)
  have 5: "fst (main w a) = SystemExit 1 \<longleftrightarrow> fst (run_reconnaissance w a) = Inr None"
    by (auto simp: main_outcome split: sum.splits option.splits)
  from 1 2 3 4 5 show ?thesis by blast
qed


theorem pipeline_empty_witness:
  "enumerate_ct (net silent_world) ''example.com'' = {} \<and>
   main silent_world example_args = (SystemExit 1, [Enumerate]) \<and>
   enumerate_ct (net dead_world) ''example.com'' \<noteq> {} \<and>
   main dead_world example_args = (SystemExit 1, [Enumerate, Resolve])"
proof -
  have t: "''example.com'' = str_strip (str_lower (target example_args))"
    by (simp add: example_target)
  have e1: "enumerate_ct (net silent_world) ''example.com'' = {}"
    by (simp add: silent_world_def silent_enumerate)
  have e2: "enumerate_ct (net dead_world) ''example.com'' = {''api.example.com'', ''old.example.com''}"
    by (simp add: dead_world_def scenario_enumerate)
  have r2: "resolve_bulk (threads example_args) (workers dead_world)
      (sorted_list_of_set (insert ''example.com'' (enumerate_ct (net dead_world) ''example.com''))) =
     Inr [(''old.example.com'', \<lparr>subdomain = ''old.example.com'', ip = None, is_alive = False,
             cname = None, error = Some ''NXDOMAIN''\<rparr>),
          (''example.com'', \<lparr>subdomain = ''example.com'', ip = None, is_alive = False,
             cname = None, error = Some ''NXDOMAIN''\<rparr>),
          (''api.example.com'', \<lparr>subdomain = ''api.example.com'', ip = None, is_alive = False,
             cname = None, error = Some ''NXDOMAIN''\<rparr>)]"
    unfolding e2 scenario_names using dead_resolve by (simp add: example_args_def)
  from pipeline_empty [OF t, of silent_world] e1
  have s: "run_reconnaissance silent_world example_args = (Inr None, [Enumerate])"
    and sm: "fst (run_reconnaissance silent_world example_args) = Inr None \<longrightarrow>
       main silent_world example_args = (SystemExit 1, snd (run_reconnaissance silent_world example_args))"
    by blast+
  from pipeline_empty [OF t, of dead_world] e2 r2
  have d: "run_reconnaissance dead_world example_args = (Inr None, [Enumerate, Resolve])"
    and dm: "fst (run_reconnaissance dead_world example_args) = Inr None \<longrightarrow>
       main dead_world example_args = (SystemExit 1, snd (run_reconnaissance dead_world example_args))"
    by auto
  show ?thesis using e1 e2 s sm d dm by simp
qed


lemma resolve_bulk_keys:
  assumes "1 \<le> max_workers"
    and "\<forall>futs. mset (as_completed p futs) = mset futs"
  shows "\<exists>results. resolve_bulk max_workers p subdomains = Inr results \<and>
           set (map fst results) = set subdomains"
proof -
  let ?futs = "as_completed p (List.enumerate 0 subdomains)"
  have "snd ` set ?futs = set subdomains"
    using set_as_completed [OF assms(2)] by (metis list.set_map map_snd_enumerate)
  then have "set (map fst (foldl (collect p) [] ?futs)) = set subdomains"
    by (simp add: keys_foldl_collect)
  then show ?thesis
    using assms(1) by (simp add: resolve_bulk_def)
qed

lemma run_alive_record:
  assumes ne: "enumerate_ct (net w) (str_strip (str_lower (target a))) \<noteq> {}"
    and rb: "resolve_bulk (threads a) (workers w)
           (sorted_list_of_set (insert (str_strip (str_lower (target a)))
              (enumerate_ct (net w) (str_strip (str_lower (target a)))))) = Inr dns_results"
    and m: "map_of dns_results sub = Some r"
    and al: "alive r"
  shows "\<exists>records. fst (run_reconnaissance w a) = Inr (Some records) \<and>
           (\<exists>row \<in> set records. rec_subdomain row = sub \<and> rec_ip row = ip r \<and>
              rec_cname row = cname r)"
proof -
  let ?alive = "filter (\<lambda>(sub, result). alive result) dns_results"
  have "(sub, r) \<in> set dns_results" using m by (rule map_of_SomeD)
  then have mem: "(sub, r) \<in> set ?alive" using al by simp
  have in_nonempty: "xs \<noteq> []" if "x \<in> set xs" for x :: "string \<times> DNSResult" and xs
    using that by auto
  have nonempty: "?alive \<noteq> []" using mem by (rule in_nonempty)
  let ?geo = "fst (locate_batch (list_set w) (geo_post w)
      (list_set w (List.map_filter (\<lambda>(sub, result). ip result) ?alive)))"
  have run: "fst (run_reconnaissance w a) = Inr (Some (map (aggregate ?geo) ?alive))"
    using ne rb nonempty by (simp add: run_reconnaissance_def Let_def)
  have in_map: "f x \<in> set (map f xs)" if "x \<in> set xs"
    for f :: "string \<times> DNSResult \<Rightarrow> intel" and x xs
    using that by simp
  have "aggregate ?geo (sub, r) \<in> set (map (aggregate ?geo) ?alive)"
    using mem by (rule in_map)
  moreover have "rec_subdomain (aggregate ?geo (sub, r)) = sub"
    "rec_ip (aggregate ?geo (sub, r)) = ip r" "rec_cname (aggregate ?geo (sub, r)) = cname r"
    by (simp_all add: aggregate_def Let_def)
  ultimately show ?thesis using run by blast
qed

text \<open>
  Claim C10. \<^verbatim>\<open>enumerate\<close> never returns the target itself, and the names handed to the
  resolver are the enumerated ones and the target. With at least one worker, whatever the
  order of completion, the table of the resolver has a key for the target. Whenever the names
  were resolved and the record of the target is alive, the run returns records, one of which
  is the target's, with its address and alias.
\<close>

theorem target_resolved_and_reported:
  assumes "tgt = str_strip (str_lower (target a))"
    and "names = sorted_list_of_set (insert tgt (enumerate_ct (net w) tgt))"
  shows "tgt \<notin> enumerate_ct (net w) tgt \<and>
         set names = insert tgt (enumerate_ct (net w) tgt) \<and>
         (1 \<le> threads a \<and> (\<forall>futs. mset (as_completed (workers w) futs) = mset futs) \<longrightarrow>
            (\<exists>dns_results. resolve_bulk (threads a) (workers w) names = Inr dns_results \<and>
               tgt \<in> set (map fst dns_results))) \<and>
         (\<forall>dns_results r.
            enumerate_ct (net w) tgt \<noteq> {} \<and>
            resolve_bulk (threads a) (workers w) names = Inr dns_results \<and>
            map_of dns_results tgt = Some r \<and> alive r \<longrightarrow>
            (\<exists>records. fst (run_reconnaissance w a) = Inr (Some records) \<and>
               (\<exists>row \<in> set records. rec_subdomain row = tgt \<and> rec_ip row = ip r \<and>
                  rec_cname row = cname r)))"
proof -
  have 1: "tgt \<notin> enumerate_ct (net w) tgt" by (rule enumerate_ct_not_target)
  have 2: "set names = insert tgt (enumerate_ct (net w) tgt)"
  proof -
    have "finite (insert tgt (enumerate_ct (net w) tgt))"
      by (simp add: finite_enumerate_ct)
    then show ?thesis
      unfolding assms(2) by (rule set_sorted_list_of_set)
  qed
  have 3: "\<exists>dns_results. resolve_bulk (threads a) (workers w) names = Inr dns_results \<and>
               tgt \<in> set (map fst dns_results)"
    if "1 \<le> threads a" "\<forall>futs. mset (as_completed (workers w) futs) = mset futs"
  proof -
    from resolve_bulk_keys [OF that, of names] obtain dns_results where
      "resolve_bulk (threads a) (workers w) names = Inr dns_results"
      "set (map fst dns_results) = set names" by blast
    then show ?thesis using 2 by auto
  qed
  have 4: "\<exists>records. fst (run_reconnaissance w a) = Inr (Some records) \<and>
               (\<exists>row \<in> set records. rec_subdomain row = tgt \<and> rec_ip row = ip r \<and>
                  rec_cname row = cname r)"
    if "enumerate_ct (net w) tgt \<noteq> {}"
      "resolve_bulk (threads a) (workers w) names = Inr dns_results"
      "map_of dns_results tgt = Some r" "alive r" for dns_results r
    using that run_alive_record [of w a dns_results tgt r] unfolding assms by blast
  from 1 2 3 4 show ?thesis by blast
qed

theorem target_resolved_and_reported_witness:
  "enumerate_ct (net scenario_world) ''example.com'' = {''api.example.com'', ''old.example.com''} \<and>
   ''example.com'' \<notin> enumerate_ct (net scenario_world) ''example.com'' \<and>
   (\<exists>records. fst (run_reconnaissance scenario_world example_args) = Inr (Some records) \<and>
      (\<exists>row \<in> set records. rec_subdomain row = ''example.com'' \<and>
         rec_ip row = Some ''203.0.113.7''))"
proof -
  have t: "''example.com'' = str_strip (str_lower (target example_args))"
    by (simp add: example_target)
  have e: "enumerate_ct (net scenario_world) ''example.com'' = {''api.example.com'', ''old.example.com''}"
    by (simp add: scenario_world_def scenario_enumerate)
  have n: "[''api.example.com'', ''example.com'', ''old.example.com''] =
      sorted_list_of_set (insert ''example.com'' (enumerate_ct (net scenario_world) ''example.com''))"
    unfolding e by (simp add: scenario_names)
  let ?r = "\<lparr>subdomain = ''example.com'', ip = Some ''203.0.113.7'', is_alive = True,
             cname = None, error = None\<rparr>"
  let ?results = "[(''old.example.com'', \<lparr>subdomain = ''old.example.com'', ip = None, is_alive = False,
             cname = None, error = Some ''NXDOMAIN''\<rparr>),
          (''example.com'', ?r),
          (''api.example.com'', \<lparr>subdomain = ''api.example.com'', ip = Some ''203.0.113.5'',
             is_alive = True, cname = None, error = None\<rparr>)]"
  have rb: "resolve_bulk (threads example_args) (workers scenario_world)
      [''api.example.com'', ''example.com'', ''old.example.com''] = Inr ?results"
    using scenario_resolve by (simp add: example_args_def)
  have m: "map_of ?results ''example.com'' = Some ?r" by simp
  have al: "alive ?r" by (simp add: alive_def)
  note T = target_resolved_and_reported [OF t n]
  have c1: "''example.com'' \<notin> enumerate_ct (net scenario_world) ''example.com''"
    using T by (rule conjunct1)
  note c4 = T [THEN conjunct2, THEN conjunct2, THEN conjunct2, rule_format]
  have ne: "enumerate_ct (net scenario_world) ''example.com'' \<noteq> {}"
    unfolding e by simp
  have "\<exists>records. fst (run_reconnaissance scenario_world example_args) = Inr (Some records) \<and>
      (\<exists>row \<in> set records. rec_subdomain row = ''example.com'' \<and> rec_ip row = ip ?r \<and>
         rec_cname row = cname ?r)"
    by (rule c4 [OF conjI [OF ne conjI [OF rb conjI [OF m al]]]])
  then obtain records row where
    rr: "fst (run_reconnaissance scenario_world example_args) = Inr (Some records)"
      "row \<in> set records" "rec_subdomain row = ''example.com''" "rec_ip row = ip ?r"
    by blast
  from rr(4) have "rec_ip row = Some ''203.0.113.7''" by simp
  with rr(2) rr(3) have "\<exists>row \<in> set records. rec_subdomain row = ''example.com'' \<and>
         rec_ip row = Some ''203.0.113.7''" by blast
  with rr(1) have "\<exists>records. fst (run_reconnaissance scenario_world example_args) = Inr (Some records) \<and>
      (\<exists>row \<in> set records. rec_subdomain row = ''example.com'' \<and>
         rec_ip row = Some ''203.0.113.7'')" by blast
  then show ?thesis using e c1 by (intro conjI)
qed

end
